theory Spec2Isabelle
  imports Main
begin

section \<open>Go strings\<close>

text \<open>
  A Go string is a sequence of bytes, so it is modelled as \<open>string\<close> (a list of 8-bit
  characters); \<open>len\<close> is \<open>length\<close> and the slices \<open>s[i:]\<close>, \<open>s[:i]\<close> are \<open>drop i s\<close>,
  \<open>take i s\<close>. Text outside ASCII is held in UTF-8, as Go holds it. The functions of
  package \<open>strings\<close> that the program calls are written out below.
\<close>

definition HasPrefix :: "string \<Rightarrow> string \<Rightarrow> bool" where
  "HasPrefix s p = (take (length p) s = p)"

definition HasSuffix :: "string \<Rightarrow> string \<Rightarrow> bool" where
  "HasSuffix s p = (length p \<le> length s \<and> drop (length s - length p) s = p)"

definition TrimSuffix :: "string \<Rightarrow> string \<Rightarrow> string" where
  "TrimSuffix s p = (if HasSuffix s p then take (length s - length p) s else s)"

text \<open>\<open>strings.Index\<close>: the offset of the first occurrence, \<open>None\<close> for Go's \<open>-1\<close>.\<close>

fun Index :: "string \<Rightarrow> string \<Rightarrow> nat option" where
  "Index [] sub = (if sub = [] then Some 0 else None)"
| "Index (c # s) sub =
     (if HasPrefix (c # s) sub then Some 0 else map_option Suc (Index s sub))"

definition Contains :: "string \<Rightarrow> string \<Rightarrow> bool" where
  "Contains s sub = (Index s sub \<noteq> None)"

definition TrimPrefix :: "string \<Rightarrow> string \<Rightarrow> string" where
  "TrimPrefix s p = (if HasPrefix s p then drop (length p) s else s)"

text \<open>
  \<open>strings.ReplaceAll s old new\<close> for a non-empty \<open>old\<close>: the occurrences are found
  from the left and do not overlap; the text put in is not searched again.
\<close>

function ReplaceAll :: "string \<Rightarrow> string \<Rightarrow> string \<Rightarrow> string" where
  "ReplaceAll [] old new = []"
| "ReplaceAll (c # s) old new =
     (if old \<noteq> [] \<and> HasPrefix (c # s) old
      then new @ ReplaceAll (drop (length old) (c # s)) old new
      else c # ReplaceAll s old new)"
  by pat_completeness auto
termination
  by (relation "measure (\<lambda>(s, old, new). length s)") (auto simp: neq_Nil_conv)

text \<open>\<open>strconv\<close>'s decimal rendering of an integer, as \<open>%d\<close> prints it.\<close>

function digits_of :: "nat \<Rightarrow> string" where
  "digits_of n =
     (if n < 10 then [char_of (48 + n)] else digits_of (n div 10) @ [char_of (48 + n mod 10)])"
  by pat_completeness auto
termination
  by (relation "measure id") auto

definition Itoa :: "int \<Rightarrow> string" where
  "Itoa i = (if i < 0 then CHR ''-'' # digits_of (nat (- i)) else digits_of (nat i))"

section \<open>Model names (models.go)\<close>

definition BaseModelMapping :: "string \<Rightarrow> string option" where
  "BaseModelMapping k =
     (if k = ''GLM-4.5'' then Some ''0727-360B-API''
      else if k = ''GLM-4.6'' then Some ''GLM-4-6-API-V1''
      else if k = ''GLM-4.7'' then Some ''glm-4.7''
      else if k = ''GLM-4.5-V'' then Some ''glm-4.5v''
      else if k = ''GLM-4.6-V'' then Some ''glm-4.6v''
      else if k = ''GLM-4.5-Air'' then Some ''0727-106B-API''
      else if k = ''0808-360B-DR'' then Some ''0808-360B-DR''
      else None)"

text \<open>
  The \<open>for\<close> loop of \<open>ParseModelName\<close>, with its three variables as arguments. Each
  iteration that does not leave the loop removes a non-empty suffix.
\<close>

function ParseModelName_loop :: "string \<Rightarrow> bool \<Rightarrow> bool \<Rightarrow> string \<times> bool \<times> bool" where
  "ParseModelName_loop baseModel enableThinking enableSearch =
     (if HasSuffix baseModel ''-thinking''
      then ParseModelName_loop (TrimSuffix baseModel ''-thinking'') True enableSearch
      else if HasSuffix baseModel ''-search''
      then ParseModelName_loop (TrimSuffix baseModel ''-search'') enableThinking True
      else (baseModel, enableThinking, enableSearch))"
  by pat_completeness auto
termination
  by (relation "measure (\<lambda>(b, t, s). length b)")
     (auto simp: TrimSuffix_def HasSuffix_def)

definition ParseModelName :: "string \<Rightarrow> string \<times> bool \<times> bool" where
  "ParseModelName model = ParseModelName_loop model False False"

definition IsThinkingModel :: "string \<Rightarrow> bool" where
  "IsThinkingModel model = (case ParseModelName model of (_, enableThinking, _) \<Rightarrow> enableThinking)"

definition IsSearchModel :: "string \<Rightarrow> bool" where
  "IsSearchModel model = (case ParseModelName model of (_, _, enableSearch) \<Rightarrow> enableSearch)"

definition GetTargetModel :: "string \<Rightarrow> string" where
  "GetTargetModel model =
     (case ParseModelName model of (baseModel, _, _) \<Rightarrow>
        (case BaseModelMapping baseModel of Some target \<Rightarrow> target | None \<Rightarrow> model))"

section \<open>The Claude endpoint's model choice (claude.go)\<close>

definition mapClaudeModel :: "string \<Rightarrow> string" where
  "mapClaudeModel claudeModel =
     (if Contains claudeModel ''opus'' \<or> Contains claudeModel ''sonnet''
      then ''GLM-4.6'' else ''GLM-4.5'')"

text \<open>
  What \<open>makeUpstreamRequest\<close> derives from its \<open>model\<close> argument: the target model and the
  two feature flags \<open>enable_thinking\<close> and \<open>auto_web_search\<close> of the request body.
\<close>

record upstream_features =
  target_model :: string
  enable_thinking :: bool
  auto_web_search :: bool

definition makeUpstreamRequest_features :: "string \<Rightarrow> upstream_features" where
  "makeUpstreamRequest_features model =
     (let targetModel = GetTargetModel model;
          enableThinking = IsThinkingModel model;
          autoWebSearch = IsSearchModel model;
          autoWebSearch = (if targetModel = ''glm-4.5v'' \<or> targetModel = ''glm-4.6v''
                           then False else autoWebSearch)
      in \<lparr>target_model = targetModel, enable_thinking = enableThinking,
          auto_web_search = autoWebSearch\<rparr>)"

text \<open>
  \<open>HandleClaudeChatCompletions\<close> passes \<open>mapClaudeModel(req.Model)\<close> to
  \<open>makeUpstreamRequest\<close>.
\<close>

definition HandleClaude_features :: "string \<Rightarrow> upstream_features" where
  "HandleClaude_features reqModel = makeUpstreamRequest_features (mapClaudeModel reqModel)"

section \<open>Citation tokens and the search-reference filter (models.go)\<close>

text \<open>
  The two brackets of a citation token are U+3010 and U+3011; in a Go string each is
  three bytes of UTF-8. Go's \<open>regexp\<close> reads the text rune by rune, and a rune equals
  U+3010 exactly where these three bytes stand, so the patterns are matched on the bytes.
  \<open>\d\<close> is the ASCII digits.
\<close>

definition lbracket :: string where
  "lbracket = [CHR 0xE3, CHR 0x80, CHR 0x90]"

definition rbracket :: string where
  "rbracket = [CHR 0xE3, CHR 0x80, CHR 0x91]"

definition is_digit :: "char \<Rightarrow> bool" where
  "is_digit c = (c \<in> set ''0123456789'')"

definition strip_prefix :: "string \<Rightarrow> string \<Rightarrow> string option" where
  "strip_prefix p s = (if HasPrefix s p then Some (drop (length p) s) else None)"

text \<open>
  \<open>searchRefPattern\<close>, the bracketed \<open>turn\d+search(\d+)\<close>, matched at the start of
  \<open>s\<close>: the match and the text after it. A run of digits is taken whole, since the
  pattern goes on with a letter or a bracket.
\<close>

definition match_searchRef :: "string \<Rightarrow> (string \<times> string) option" where
  "match_searchRef s =
     (case strip_prefix (lbracket @ ''turn'') s of None \<Rightarrow> None | Some s1 \<Rightarrow>
        let d1 = takeWhile is_digit s1; s2 = dropWhile is_digit s1 in
        if d1 = [] then None else
        (case strip_prefix ''search'' s2 of None \<Rightarrow> None | Some s3 \<Rightarrow>
           let d2 = takeWhile is_digit s3; s4 = dropWhile is_digit s3 in
           if d2 = [] then None else
           (case strip_prefix rbracket s4 of None \<Rightarrow> None | Some s5 \<Rightarrow>
              Some (lbracket @ ''turn'' @ d1 @ ''search'' @ d2 @ rbracket, s5))))"

lemma strip_prefix_Some: "strip_prefix p s = Some r \<Longrightarrow> s = p @ r"
  by (metis HasPrefix_def append_take_drop_id option.distinct(1) option.inject strip_prefix_def)

lemma match_searchRef_split:
  assumes "match_searchRef s = Some (m, rest)"
  shows "s = m @ rest"
proof -
  from assms obtain s1 s3 s5 where
    s1: "strip_prefix (lbracket @ ''turn'') s = Some s1" and
    s3: "strip_prefix ''search'' (dropWhile is_digit s1) = Some s3" and
    s5: "strip_prefix rbracket (dropWhile is_digit s3) = Some s5" and
    m: "m = lbracket @ ''turn'' @ takeWhile is_digit s1 @ ''search'' @
            takeWhile is_digit s3 @ rbracket" and
    rest: "rest = s5"
    by (auto simp: match_searchRef_def Let_def split: option.splits if_splits)
  have "s = (lbracket @ ''turn'') @ s1"
    using s1 by (rule strip_prefix_Some)
  also have "s1 = takeWhile is_digit s1 @ dropWhile is_digit s1"
    by simp
  also have "dropWhile is_digit s1 = ''search'' @ s3"
    using s3 by (rule strip_prefix_Some)
  also have "s3 = takeWhile is_digit s3 @ dropWhile is_digit s3"
    by simp
  also have "dropWhile is_digit s3 = rbracket @ s5"
    using s5 by (rule strip_prefix_Some)
  finally show ?thesis
    by (simp add: m rest)
qed

lemma match_searchRef_shorter:
  "match_searchRef s = Some (m, rest) \<Longrightarrow> length rest < length s"
  by (frule match_searchRef_split)
     (auto simp: match_searchRef_def Let_def lbracket_def split: option.splits if_splits)

text \<open>
  \<open>searchRefPattern.ReplaceAllStringFunc\<close>: the matches are found from the left, do not
  overlap, and each is replaced by what \<open>repl\<close> returns for it.
\<close>

function ReplaceAllStringFunc :: "string \<Rightarrow> (string \<Rightarrow> string) \<Rightarrow> string" where
  "ReplaceAllStringFunc [] repl = []"
| "ReplaceAllStringFunc (c # s) repl =
     (case match_searchRef (c # s) of
        Some (m, rest) \<Rightarrow> repl m @ ReplaceAllStringFunc rest repl
      | None \<Rightarrow> c # ReplaceAllStringFunc s repl)"
  by pat_completeness auto
termination
  by (relation "measure (\<lambda>(s, repl). length s)") (auto dest: match_searchRef_shorter)

text \<open>\<open>searchRefPattern.MatchString\<close>: some match anywhere in the text.\<close>

fun searchRefPattern_MatchString :: "string \<Rightarrow> bool" where
  "searchRefPattern_MatchString [] = False"
| "searchRefPattern_MatchString (c # s) =
     (match_searchRef (c # s) \<noteq> None \<or> searchRefPattern_MatchString s)"

text \<open>
  \<open>searchRefPrefixPattern\<close>: the left bracket followed by nested optional groups and the
  end of the text. An optional group that starts with the letter \<open>c\<close> either is absent,
  and the text ends there, or takes \<open>c\<close> and goes on with \<open>k\<close>.
\<close>

definition opt_group :: "char \<Rightarrow> (string \<Rightarrow> bool) \<Rightarrow> string \<Rightarrow> bool" where
  "opt_group c k s = (case s of [] \<Rightarrow> True | x # r \<Rightarrow> x = c \<and> k r)"

definition opt_digits :: "(string \<Rightarrow> bool) \<Rightarrow> string \<Rightarrow> bool" where
  "opt_digits k s = (s = [] \<or> (takeWhile is_digit s \<noteq> [] \<and> k (dropWhile is_digit s)))"

definition prefix_groups :: "string \<Rightarrow> bool" where
  "prefix_groups =
     opt_group CHR ''t'' (opt_group CHR ''u'' (opt_group CHR ''r'' (opt_group CHR ''n''
       (opt_digits (opt_group CHR ''s'' (opt_group CHR ''e'' (opt_group CHR ''a''
         (opt_group CHR ''r'' (opt_group CHR ''c'' (opt_group CHR ''h''
           (opt_digits (\<lambda>s. s = []))))))))))))"

text \<open>The prefix pattern matched at the start of \<open>s\<close> and up to its end.\<close>

definition match_searchRefPrefix :: "string \<Rightarrow> bool" where
  "match_searchRefPrefix s =
     (case strip_prefix lbracket s of None \<Rightarrow> False | Some r \<Rightarrow> prefix_groups r)"

text \<open>\<open>searchRefPrefixPattern.MatchString\<close>: a match that starts anywhere and ends at the end.\<close>

fun searchRefPrefixPattern_MatchString :: "string \<Rightarrow> bool" where
  "searchRefPrefixPattern_MatchString [] = match_searchRefPrefix []"
| "searchRefPrefixPattern_MatchString (c # s) =
     (match_searchRefPrefix (c # s) \<or> searchRefPrefixPattern_MatchString s)"

record SearchResult =
  Title :: string
  URL :: string
  Index_of :: int
  RefID :: string

record SearchRefFilter =
  buffer :: string
  searchResults :: "string \<rightharpoonup> SearchResult"

definition NewSearchRefFilter :: SearchRefFilter where
  "NewSearchRefFilter = \<lparr>buffer = [], searchResults = Map.empty\<rparr>"

definition AddSearchResults :: "SearchRefFilter \<Rightarrow> SearchResult list \<Rightarrow> SearchRefFilter" where
  "AddSearchResults f results =
     f\<lparr>searchResults := foldl (\<lambda>m r. m(RefID r \<mapsto> r)) (searchResults f) results\<rparr>"

text \<open>
  The callback of both \<open>Process\<close> and \<open>Flush\<close>. \<open>runes[1 : len(runes)-1]\<close> drops the first
  and the last rune of the match, which are the two brackets, three bytes each. The link
  is \<open>Sprintf\<close> of the format \<open>[\[%d\]](%s)\<close>.
\<close>

definition refID_of :: "string \<Rightarrow> string" where
  "refID_of m = take (length m - 6) (drop 3 m)"

definition citation_link :: "SearchResult \<Rightarrow> string" where
  "citation_link result =
     [CHR ''['', CHR 0x5C, CHR ''[''] @ Itoa (Index_of result) @
     [CHR 0x5C, CHR '']'', CHR '']'', CHR ''(''] @ URL result @ [CHR '')'']"

definition citation_repl :: "(string \<rightharpoonup> SearchResult) \<Rightarrow> string \<Rightarrow> string" where
  "citation_repl rs m =
     (case rs (refID_of m) of Some result \<Rightarrow> citation_link result | None \<Rightarrow> [])"

text \<open>
  The loop \<open>for i := 1; i <= maxPrefixLen; i++\<close> of \<open>Process\<close>: the returned text and the
  suffix held back at the first \<open>i\<close> whose suffix matches, \<open>None\<close> when the loop ends
  without a match.
\<close>

function hold_loop :: "string \<Rightarrow> nat \<Rightarrow> nat \<Rightarrow> (string \<times> string) option" where
  "hold_loop content maxPrefixLen i =
     (if i \<le> maxPrefixLen
      then (let suffix = drop (length content - i) content in
            if searchRefPrefixPattern_MatchString suffix
            then Some (take (length content - i) content, suffix)
            else hold_loop content maxPrefixLen (Suc i))
      else None)"
  by pat_completeness auto
termination
  by (relation "measure (\<lambda>(content, maxPrefixLen, i). Suc maxPrefixLen - i)") auto

definition Process :: "SearchRefFilter \<Rightarrow> string \<Rightarrow> string \<times> SearchRefFilter" where
  "Process f content =
     (let content = buffer f @ content;
          f = f\<lparr>buffer := []\<rparr>
      in if content = [] then ([], f)
         else
           let content = ReplaceAllStringFunc content (citation_repl (searchResults f))
           in if content = [] then ([], f)
              else
                let maxPrefixLen = (if length content < 20 then length content else 20)
                in (case hold_loop content maxPrefixLen 1 of
                      Some (out, suffix) \<Rightarrow> (out, f\<lparr>buffer := suffix\<rparr>)
                    | None \<Rightarrow> (content, f)))"

definition Flush :: "SearchRefFilter \<Rightarrow> string \<times> SearchRefFilter" where
  "Flush f =
     (let result = buffer f;
          f = f\<lparr>buffer := []\<rparr>;
          result = (if result \<noteq> []
                    then ReplaceAllStringFunc result (citation_repl (searchResults f))
                    else result)
      in (result, f))"

text \<open>
  The invariant of the filter's pending buffer: at most 20 bytes, and no complete citation
  token in it.
\<close>

definition buffer_inv :: "SearchRefFilter \<Rightarrow> bool" where
  "buffer_inv f = (length (buffer f) \<le> 20 \<and> \<not> searchRefPattern_MatchString (buffer f))"

text \<open>
  A stream of chunks through one filter: \<open>Process\<close> on each chunk in turn, then \<open>Flush\<close>;
  the output is the concatenation of everything returned.
\<close>

fun Process_chunks :: "SearchRefFilter \<Rightarrow> string list \<Rightarrow> string list \<times> SearchRefFilter" where
  "Process_chunks f [] = ([], f)"
| "Process_chunks f (c # cs) =
     (let (out, f) = Process f c;
          (outs, f) = Process_chunks f cs
      in (out # outs, f))"

definition stream_output :: "SearchRefFilter \<Rightarrow> string list \<Rightarrow> string" where
  "stream_output f cs = (let (outs, f) = Process_chunks f cs in concat outs @ fst (Flush f))"

text \<open>
  Every citation token that occurs in a text has a registered identifier.
\<close>

fun tokens_registered :: "(string \<rightharpoonup> SearchResult) \<Rightarrow> string \<Rightarrow> bool" where
  "tokens_registered rs [] = True"
| "tokens_registered rs (c # s) =
     ((case match_searchRef (c # s) of
         Some (m, rest) \<Rightarrow> rs (refID_of m) \<noteq> None
       | None \<Rightarrow> True)
      \<and> tokens_registered rs s)"

text \<open>
  A chunk boundary, with the text \<open>p\<close> before it and the text \<open>z\<close> after it: a citation
  token that starts in \<open>p\<close> and ends in \<open>z\<close> has at most 20 bytes in \<open>p\<close>, and these
  match the prefix pattern (the boundary does not cut a bracket's encoding).
  \<open>boundaries_ok\<close> says so of every boundary of a list of chunks.
\<close>

fun straddle_ok :: "string \<Rightarrow> string \<Rightarrow> bool" where
  "straddle_ok [] z = True"
| "straddle_ok (c # p) z =
     ((case match_searchRef ((c # p) @ z) of
         Some (m, r) \<Rightarrow>
           length z \<le> length r \<or> (length (c # p) \<le> 20 \<and> match_searchRefPrefix (c # p))
       | None \<Rightarrow> True)
      \<and> straddle_ok p z)"

fun boundaries_ok :: "string \<Rightarrow> string list \<Rightarrow> bool" where
  "boundaries_ok p [] = True"
| "boundaries_ok p (c # cs) = (straddle_ok (p @ c) (concat cs) \<and> boundaries_ok (p @ c) cs)"

section \<open>The thinking filter (claude.go)\<close>

record ThinkingFilter =
  hasSeenFirstThinking :: bool
  thinking_buffer :: string
  lastOutputChunk :: string
  lastPhase :: string
  thinkingRoundCount :: nat

text \<open>The zero value \<open>&ThinkingFilter{}\<close>.\<close>

definition NewThinkingFilter :: ThinkingFilter where
  "NewThinkingFilter =
     \<lparr>hasSeenFirstThinking = False, thinking_buffer = [], lastOutputChunk = [],
      lastPhase = [], thinkingRoundCount = 0\<rparr>"

definition marker :: string where
  "marker = [CHR ''>'', CHR '' '']"

definition line_marker :: string where
  "line_marker = [CHR 0x0A, CHR ''>'', CHR '' '']"

definition newline :: string where
  "newline = [CHR 0x0A]"

definition held_marker :: string where
  "held_marker = [CHR 0x0A, CHR ''>'']"

text \<open>\<open>ProcessThinking\<close> from \<open>content := f.buffer + deltaContent\<close> on.\<close>

definition ProcessThinking_content :: "ThinkingFilter \<Rightarrow> string \<Rightarrow> string \<times> ThinkingFilter" where
  "ProcessThinking_content f deltaContent =
     (let content = thinking_buffer f @ deltaContent;
          f = f\<lparr>thinking_buffer := []\<rparr>;
          content = ReplaceAll content line_marker newline
      in if HasSuffix content held_marker
         then (take (length content - 2) content, f\<lparr>thinking_buffer := held_marker\<rparr>)
         else if HasSuffix content newline
         then (take (length content - 1) content, f\<lparr>thinking_buffer := newline\<rparr>)
         else (content, f))"

definition ProcessThinking :: "ThinkingFilter \<Rightarrow> string \<Rightarrow> string \<times> ThinkingFilter" where
  "ProcessThinking f deltaContent =
     (if \<not> hasSeenFirstThinking f
      then (let f = f\<lparr>hasSeenFirstThinking := True\<rparr>
            in case Index deltaContent marker of
                 Some idx \<Rightarrow> ProcessThinking_content f (drop (idx + 2) deltaContent)
               | None \<Rightarrow> ([], f))
      else ProcessThinking_content f deltaContent)"

definition ThinkingFilter_Flush :: "ThinkingFilter \<Rightarrow> string \<times> ThinkingFilter" where
  "ThinkingFilter_Flush f = (thinking_buffer f, f\<lparr>thinking_buffer := []\<rparr>)"

text \<open>
  A panic of the Go runtime is a result of its own: \<open>editContent[startIdx:endIdx]\<close>
  panics when \<open>startIdx > endIdx\<close>.
\<close>

datatype go_panic = SliceBoundsOutOfRange

definition closing_tag :: string where
  "closing_tag = CHR 0x0A # ''</details>''"

definition ExtractCompleteThinking :: "string \<Rightarrow> go_panic + string" where
  "ExtractCompleteThinking editContent =
     (case Index editContent marker of
        None \<Rightarrow> Inr []
      | Some startIdx \<Rightarrow>
          let startIdx = startIdx + 2 in
          (case Index editContent closing_tag of
             None \<Rightarrow> Inr []
           | Some endIdx \<Rightarrow>
               if startIdx > endIdx then Inl SliceBoundsOutOfRange
               else Inr (ReplaceAll (take (endIdx - startIdx) (drop startIdx editContent))
                           line_marker newline)))"

definition ExtractIncrementalThinking :: "ThinkingFilter \<Rightarrow> string \<Rightarrow> go_panic + string" where
  "ExtractIncrementalThinking f editContent =
     (case ExtractCompleteThinking editContent of
        Inl e \<Rightarrow> Inl e
      | Inr completeThinking \<Rightarrow>
          if completeThinking = [] then Inr []
          else if lastOutputChunk f = [] then Inr completeThinking
          else (case Index completeThinking (lastOutputChunk f) of
                  None \<Rightarrow> Inr completeThinking
                | Some idx \<Rightarrow>
                    Inr (drop (idx + length (lastOutputChunk f)) completeThinking)))"

definition ResetForNewRound :: "ThinkingFilter \<Rightarrow> ThinkingFilter" where
  "ResetForNewRound f = f\<lparr>lastOutputChunk := [], hasSeenFirstThinking := False\<rparr>"

text \<open>
  A stream of thinking deltas through one filter: \<open>ProcessThinking\<close> on each delta in
  turn, then \<open>Flush\<close>; the output is the concatenation of everything returned.
\<close>

fun ProcessThinking_deltas :: "ThinkingFilter \<Rightarrow> string list \<Rightarrow> string list \<times> ThinkingFilter" where
  "ProcessThinking_deltas f [] = ([], f)"
| "ProcessThinking_deltas f (d # ds) =
     (let (out, f) = ProcessThinking f d;
          (outs, f) = ProcessThinking_deltas f ds
      in (out # outs, f))"

definition thinking_stream_output :: "ThinkingFilter \<Rightarrow> string list \<Rightarrow> string" where
  "thinking_stream_output f ds =
     (let (outs, f) = ProcessThinking_deltas f ds in concat outs @ fst (ThinkingFilter_Flush f))"

text \<open>
  A delta boundary inside a nested marker: the text before it ends with a line marker and
  the delta begins with the marker, or the text before it ends with a line marker and
  \<open>>\<close> and the delta begins with a space. \<open>delta_boundaries_ok\<close> says that no boundary
  of a list of deltas is one.
\<close>

definition delta_boundary_ok :: "string \<Rightarrow> string \<Rightarrow> bool" where
  "delta_boundary_ok prior d \<longleftrightarrow>
     \<not> (HasSuffix prior line_marker \<and> HasPrefix d marker)
     \<and> \<not> (HasSuffix prior (line_marker @ ''>'') \<and> HasPrefix d '' '')"

fun delta_boundaries_ok :: "string \<Rightarrow> string list \<Rightarrow> bool" where
  "delta_boundaries_ok prior [] = True"
| "delta_boundaries_ok prior (d # ds) =
     (delta_boundary_ok prior d \<and> delta_boundaries_ok (prior @ d) ds)"

section \<open>Embedded blocks of a snapshot (models.go)\<close>

text \<open>
  \<open>encoding/json\<close> is not part of the program: what \<open>json.Unmarshal\<close> returns for a text
  is a parameter, \<open>None\<close> for an error. One decoder for each target type the program
  decodes into; an item of an image-search array is the pair of its \<open>type\<close> and \<open>text\<close>
  fields, each \<open>None\<close> when it is absent or not a string. The order in which \<open>range\<close>
  visits a map is not fixed by Go either, and is a parameter too.
\<close>

record UpstreamData =
  DeltaContent :: string
  EditContent :: string
  Phase :: string

record go_env =
  Unmarshal_upstream :: "string \<Rightarrow> UpstreamData option"
  Unmarshal_string :: "string \<Rightarrow> string option"
  Unmarshal_results :: "string \<Rightarrow> SearchResult list option"
  Unmarshal_items :: "string \<Rightarrow> (string option \<times> string option) list option"
  range_results :: "(string \<rightharpoonup> SearchResult) \<Rightarrow> SearchResult list"

definition IsSearchResultContent :: "string \<Rightarrow> bool" where
  \<open>IsSearchResultContent editContent = Contains editContent ''"search_result"''\<close>

text \<open>
  The first loop of both parsers: from \<open>startIdx\<close> on to the first \<open>[\<close>, or to the end
  of the text.
\<close>

definition find_open :: "string \<Rightarrow> nat \<Rightarrow> nat" where
  "find_open editContent startIdx =
     startIdx + length (takeWhile (\<lambda>c. c \<noteq> CHR ''['') (drop startIdx editContent))"

text \<open>
  The second loop of \<open>ParseSearchResults\<close>, on the text from \<open>endIdx\<close> on: the values of
  \<open>bracketCount\<close> and \<open>endIdx\<close> when the loop is left.
\<close>

fun scan_results :: "string \<Rightarrow> int \<Rightarrow> nat \<Rightarrow> int \<times> nat" where
  "scan_results [] bracketCount endIdx = (bracketCount, endIdx)"
| "scan_results (ch # rest) bracketCount endIdx =
     (if ch = CHR ''['' then scan_results rest (bracketCount + 1) (endIdx + 1)
      else if ch = CHR '']''
      then (if bracketCount - 1 = 0 then (bracketCount - 1, endIdx + 1)
            else scan_results rest (bracketCount - 1) (endIdx + 1))
      else scan_results rest bracketCount (endIdx + 1))"

text \<open>The text \<open>jsonStr\<close> that \<open>ParseSearchResults\<close> hands to the decoder, if it gets there.\<close>

definition search_result_json :: "string \<Rightarrow> string option" where
  \<open>search_result_json editContent =
     (let searchResultKey = ''"search_result":'' in
      case Index editContent searchResultKey of
        None \<Rightarrow> None
      | Some idx \<Rightarrow>
          let startIdx = find_open editContent (idx + length searchResultKey) in
          if startIdx \<ge> length editContent then None
          else
            (case scan_results (drop startIdx editContent) 0 startIdx of
               (bracketCount, endIdx) \<Rightarrow>
                 if bracketCount \<noteq> 0 then None
                 else Some (take (endIdx - startIdx) (drop startIdx editContent))))\<close>

definition ParseSearchResults :: "go_env \<Rightarrow> string \<Rightarrow> SearchResult list" where
  "ParseSearchResults env editContent =
     (case search_result_json editContent of
        None \<Rightarrow> []
      | Some jsonStr \<Rightarrow>
          (case Unmarshal_results env jsonStr of
             None \<Rightarrow> []
           | Some rawResults \<Rightarrow>
               map (\<lambda>r. \<lparr>Title = Title r, URL = URL r, Index_of = Index_of r, RefID = RefID r\<rparr>)
                 rawResults))"

definition IsSearchToolCall :: "string \<Rightarrow> string \<Rightarrow> bool" where
  \<open>IsSearchToolCall editContent phase =
     (if phase \<noteq> ''tool_call'' then False
      else Contains editContent ''"mcp"'' \<or> Contains editContent ''mcp-server'')\<close>

record ImageSearchResult =
  ImageTitle :: string
  Link :: string
  Thumbnail :: string

text \<open>
  The second loop of \<open>ParseImageSearchResults\<close>, which also follows \<open>inString\<close> and
  \<open>escapeNext\<close>.
\<close>

fun scan_image :: "string \<Rightarrow> int \<Rightarrow> nat \<Rightarrow> bool \<Rightarrow> bool \<Rightarrow> int \<times> nat" where
  "scan_image [] bracketCount endIdx inString escapeNext = (bracketCount, endIdx)"
| "scan_image (ch # rest) bracketCount endIdx inString escapeNext =
     (if escapeNext then scan_image rest bracketCount (endIdx + 1) inString False
      else if ch = CHR 0x5C then scan_image rest bracketCount (endIdx + 1) inString True
      else
        let inString = (if ch = CHR 0x22 then \<not> inString else inString) in
        if \<not> inString
        then (if ch = CHR ''['' \<or> ch = CHR ''{''
              then scan_image rest (bracketCount + 1) (endIdx + 1) inString escapeNext
              else if ch = CHR '']'' \<or> ch = CHR ''}''
              then (if bracketCount - 1 = 0 \<and> ch = CHR '']''
                    then (bracketCount - 1, endIdx + 1)
                    else scan_image rest (bracketCount - 1) (endIdx + 1) inString escapeNext)
              else scan_image rest bracketCount (endIdx + 1) inString escapeNext)
        else scan_image rest bracketCount (endIdx + 1) inString escapeNext)"

definition image_result_json :: "string \<Rightarrow> string option" where
  \<open>image_result_json editContent =
     (let resultKey = ''"result":'' in
      case Index editContent resultKey of
        None \<Rightarrow> None
      | Some idx \<Rightarrow>
          let startIdx = find_open editContent (idx + length resultKey) in
          if startIdx \<ge> length editContent then None
          else
            (case scan_image (drop startIdx editContent) 0 startIdx False False of
               (bracketCount, endIdx) \<Rightarrow>
                 if bracketCount \<noteq> 0 then None
                 else Some (take (endIdx - startIdx) (drop startIdx editContent))))\<close>

text \<open>
  \<open>strings.TrimSpace\<close> on UTF-8 text: the white space of Unicode, each code point in its
  encoding.
\<close>

definition space_codes :: "string list" where
  "space_codes =
     [[CHR 0x09], [CHR 0x0A], [CHR 0x0B], [CHR 0x0C], [CHR 0x0D], [CHR 0x20],
      [CHR 0xC2, CHR 0x85], [CHR 0xC2, CHR 0xA0], [CHR 0xE1, CHR 0x9A, CHR 0x80],
      [CHR 0xE2, CHR 0x80, CHR 0x80], [CHR 0xE2, CHR 0x80, CHR 0x81],
      [CHR 0xE2, CHR 0x80, CHR 0x82], [CHR 0xE2, CHR 0x80, CHR 0x83],
      [CHR 0xE2, CHR 0x80, CHR 0x84], [CHR 0xE2, CHR 0x80, CHR 0x85],
      [CHR 0xE2, CHR 0x80, CHR 0x86], [CHR 0xE2, CHR 0x80, CHR 0x87],
      [CHR 0xE2, CHR 0x80, CHR 0x88], [CHR 0xE2, CHR 0x80, CHR 0x89],
      [CHR 0xE2, CHR 0x80, CHR 0x8A], [CHR 0xE2, CHR 0x80, CHR 0xA8],
      [CHR 0xE2, CHR 0x80, CHR 0xA9], [CHR 0xE2, CHR 0x80, CHR 0xAF],
      [CHR 0xE2, CHR 0x81, CHR 0x9F], [CHR 0xE3, CHR 0x80, CHR 0x80]]"

function TrimLeftSpace :: "string \<Rightarrow> string" where
  "TrimLeftSpace s =
     (case find (\<lambda>p. HasPrefix s p) space_codes of
        None \<Rightarrow> s
      | Some p \<Rightarrow> if length p \<le> length s \<and> p \<noteq> [] then TrimLeftSpace (drop (length p) s) else s)"
  by pat_completeness auto
termination
  by (relation "measure length") (auto simp: neq_Nil_conv)

function TrimRightSpace :: "string \<Rightarrow> string" where
  "TrimRightSpace s =
     (case find (\<lambda>p. HasSuffix s p) space_codes of
        None \<Rightarrow> s
      | Some p \<Rightarrow> if length p \<le> length s \<and> p \<noteq> [] then TrimRightSpace (take (length s - length p) s) else s)"
  by pat_completeness auto
termination
  by (relation "measure length") (auto simp: neq_Nil_conv)

definition TrimSpace :: "string \<Rightarrow> string" where
  "TrimSpace s = TrimRightSpace (TrimLeftSpace s)"

definition parseImageSearchText :: "string \<Rightarrow> ImageSearchResult" where
  "parseImageSearchText text =
     (let result = \<lparr>ImageTitle = [], Link = [], Thumbnail = []\<rparr>;
          result =
            (case Index text ''Title: '' of
               None \<Rightarrow> result
             | Some titleIdx \<Rightarrow>
                 let titleStart = titleIdx + length ''Title: '' in
                 (case Index (drop titleStart text) '';'' of
                    None \<Rightarrow> result
                  | Some titleEnd \<Rightarrow>
                      result\<lparr>ImageTitle := TrimSpace (take titleEnd (drop titleStart text))\<rparr>));
          result =
            (case Index text ''Link: '' of
               None \<Rightarrow> result
             | Some linkIdx \<Rightarrow>
                 let linkStart = linkIdx + length ''Link: '' in
                 (case Index (drop linkStart text) '';'' of
                    None \<Rightarrow> result\<lparr>Link := TrimSpace (drop linkStart text)\<rparr>
                  | Some linkEnd \<Rightarrow>
                      result\<lparr>Link := TrimSpace (take linkEnd (drop linkStart text))\<rparr>));
          result =
            (case Index text ''Thumbnail: '' of
               None \<Rightarrow> result
             | Some thumbnailIdx \<Rightarrow>
                 result\<lparr>Thumbnail := TrimSpace (drop (thumbnailIdx + length ''Thumbnail: '') text)\<rparr>)
      in result)"

definition ParseImageSearchResults :: "go_env \<Rightarrow> string \<Rightarrow> ImageSearchResult list" where
  "ParseImageSearchResults env editContent =
     (case image_result_json editContent of
        None \<Rightarrow> []
      | Some jsonStr \<Rightarrow>
          (case Unmarshal_items env jsonStr of
             None \<Rightarrow> []
           | Some rawResults \<Rightarrow>
               concat (map (\<lambda>item.
                 (case item of
                    (Some itemType, Some text) \<Rightarrow>
                      if itemType = ''text''
                      then (let result = parseImageSearchText text in
                            if ImageTitle result \<noteq> [] \<and> Link result \<noteq> [] then [result] else [])
                      else []
                  | _ \<Rightarrow> [])) rawResults)))"

definition FormatImageSearchResults :: "ImageSearchResult list \<Rightarrow> string" where
  "FormatImageSearchResults results =
     (if results = [] then []
      else concat (map (\<lambda>r.
             let escapedTitle = ReplaceAll (ImageTitle r) ''['' [CHR 0x5C, CHR ''['']; 
                 escapedTitle = ReplaceAll escapedTitle '']'' [CHR 0x5C, CHR '']'']
             in [CHR 0x0A] @ ''!['' @ escapedTitle @ '']('' @ Link r @ '')'') results)
           @ [CHR 0x0A])"

definition ExtractTextBeforeGlmBlock :: "string \<Rightarrow> string" where
  "ExtractTextBeforeGlmBlock editContent =
     (case Index editContent ''<glm_block'' of
        Some idx \<Rightarrow>
          let text = take idx editContent in
          if HasSuffix text [CHR 0x0A] then take (length text - 1) text else text
      | None \<Rightarrow> [])"

section \<open>The bibliography of a filter (models.go)\<close>

definition escapeMarkdownTitle :: "string \<Rightarrow> string" where
  "escapeMarkdownTitle title =
     (let title = ReplaceAll title [CHR 0x5C] [CHR 0x5C, CHR 0x5C];
          title = ReplaceAll title ''['' [CHR 0x5C, CHR ''['']; 
          title = ReplaceAll title '']'' [CHR 0x5C, CHR '']'']
      in title)"

text \<open>
  The two nested loops of \<open>GetSearchResultsMarkdown\<close> that order the results by index,
  exchanging \<open>results[i]\<close> and \<open>results[j]\<close> in place.
\<close>

function sort_inner :: "SearchResult list \<Rightarrow> nat \<Rightarrow> nat \<Rightarrow> SearchResult list" where
  "sort_inner results i j =
     (if j < length results
      then sort_inner
             (if Index_of (results ! i) > Index_of (results ! j)
              then results[i := results ! j, j := results ! i] else results)
             i (j + 1)
      else results)"
  by pat_completeness auto
termination
  by (relation "measure (\<lambda>(results, i, j). length results - j)") auto

declare sort_inner.simps [simp del]

lemma length_sort_inner [simp]: "length (sort_inner results i j) = length results"
proof (induction results i j rule: sort_inner.induct)
  case (1 results i j)
  show ?case
  proof (cases "j < length results")
    case True
    with "1.IH" show ?thesis by (subst sort_inner.simps) simp
  next
    case False
    then show ?thesis by (subst sort_inner.simps) simp
  qed
qed

function sort_outer :: "SearchResult list \<Rightarrow> nat \<Rightarrow> SearchResult list" where
  "sort_outer results i =
     (if i + 1 < length results
      then sort_outer (sort_inner results i (i + 1)) (i + 1)
      else results)"
  by pat_completeness auto
termination
  by (relation "measure (\<lambda>(results, i). length results - i)") auto

declare sort_outer.simps [simp del]

text \<open>
  \<open>range_results env m\<close> lists the values of the map \<open>m\<close> in the order of the \<open>range\<close>
  loop, so the map is empty when the list is.
\<close>

definition GetSearchResultsMarkdown :: "go_env \<Rightarrow> SearchRefFilter \<Rightarrow> string" where
  "GetSearchResultsMarkdown env f =
     (let results = range_results env (searchResults f) in
      if results = [] then []
      else concat (map (\<lambda>r.
             [CHR ''['', CHR 0x5C, CHR ''[''] @ Itoa (Index_of r) @ [CHR 0x5C, CHR '']'', CHR '' '']
             @ escapeMarkdownTitle (Title r) @ '']('' @ URL r @ '')'' @ [CHR 0x0A])
             (sort_outer results 0))
           @ [CHR 0x0A])"

section \<open>Upstream events (claude.go)\<close>

definition GetEditContent :: "go_env \<Rightarrow> UpstreamData \<Rightarrow> string" where
  "GetEditContent env u =
     (let editContent = EditContent u in
      if editContent = [] then []
      else if hd editContent = CHR 0x22
      then (case Unmarshal_string env editContent of
              Some unescaped \<Rightarrow> unescaped
            | None \<Rightarrow> editContent)
      else editContent)"

text \<open>
  The lines that \<open>scanner.Scan\<close> yields, as the four handlers read them: a line without
  the prefix is skipped, the sentinel ends the stream, a payload that does not decode is
  skipped. What is left is the list of events that reach the body of the loop.
\<close>

fun upstream_events :: "go_env \<Rightarrow> string list \<Rightarrow> UpstreamData list" where
  "upstream_events env [] = []"
| "upstream_events env (line # lines) =
     (if \<not> HasPrefix line ''data: '' then upstream_events env lines
      else
        let payload = TrimPrefix line ''data: '' in
        if payload = ''[DONE]'' then []
        else (case Unmarshal_upstream env payload of
                None \<Rightarrow> upstream_events env lines
              | Some upstream \<Rightarrow> upstream # upstream_events env lines))"

text \<open>
  The texts of the events are decoded from JSON and so are valid UTF-8, in which a rune is
  a byte that is no continuation byte, with the continuation bytes that follow it.
  \<open>RuneCount s\<close> is \<open>len([]rune(s))\<close> and \<open>drop_runes n s\<close> is \<open>string([]rune(s)[n:])\<close>.
\<close>

definition is_continuation :: "char \<Rightarrow> bool" where
  "is_continuation c = (128 \<le> (of_char c :: nat) \<and> (of_char c :: nat) < 192)"

definition RuneCount :: "string \<Rightarrow> nat" where
  "RuneCount s = length (filter (\<lambda>c. \<not> is_continuation c) s)"

fun drop_runes :: "nat \<Rightarrow> string \<Rightarrow> string" where
  "drop_runes 0 s = s"
| "drop_runes (Suc n) [] = []"
| "drop_runes (Suc n) (c # s) = drop_runes n (dropWhile is_continuation s)"

section \<open>The OpenAI streaming handler (claude.go, second part)\<close>

text \<open>
  What the handler writes: a \<open>data:\<close> line with a chunk, or the terminator line
  \<open>data: [DONE]\<close>. The field \<open>created\<close> of a chunk is the wall clock and is left out.
\<close>

record Delta =
  Content :: string
  ReasoningContent :: string

record Choice =
  ChoiceIndex :: nat
  ChoiceDelta :: Delta
  FinishReason :: "string option"

record ChatCompletionChunk =
  ID :: string
  Object :: string
  Model :: string
  Choices :: "Choice list"

datatype sse_write = Data ChatCompletionChunk | Done_terminator

definition delta_chunk :: "string \<Rightarrow> string \<Rightarrow> Delta \<Rightarrow> string option \<Rightarrow> sse_write" where
  "delta_chunk completionID modelName d finish =
     Data \<lparr>ID = completionID, Object = ''chat.completion.chunk'', Model = modelName,
           Choices = [\<lparr>ChoiceIndex = 0, ChoiceDelta = d, FinishReason = finish\<rparr>]\<rparr>"

definition content_chunk :: "string \<Rightarrow> string \<Rightarrow> string \<Rightarrow> sse_write" where
  "content_chunk completionID modelName text =
     delta_chunk completionID modelName \<lparr>Content = text, ReasoningContent = []\<rparr> None"

definition reasoning_chunk :: "string \<Rightarrow> string \<Rightarrow> string \<Rightarrow> sse_write" where
  "reasoning_chunk completionID modelName text =
     delta_chunk completionID modelName \<lparr>Content = [], ReasoningContent = text\<rparr> None"

definition final_chunk :: "string \<Rightarrow> string \<Rightarrow> sse_write" where
  "final_chunk completionID modelName =
     delta_chunk completionID modelName \<lparr>Content = [], ReasoningContent = []\<rparr> (Some ''stop'')"

record stream_state =
  hasContent :: bool
  searchRefFilter :: SearchRefFilter
  thinkingFilter :: ThinkingFilter
  pendingSourcesMarkdown :: string
  pendingImageSearchMarkdown :: string
  totalContentOutputLength :: nat

definition stream_init :: stream_state where
  "stream_init =
     \<lparr>hasContent = False, searchRefFilter = NewSearchRefFilter,
      thinkingFilter = NewThinkingFilter, pendingSourcesMarkdown = [],
      pendingImageSearchMarkdown = [], totalContentOutputLength = 0\<rparr>"

text \<open>The branch of the loop for a thinking delta, up to its \<open>continue\<close>.\<close>

definition stream_thinking ::
  "string \<Rightarrow> string \<Rightarrow> stream_state \<Rightarrow> UpstreamData \<Rightarrow> sse_write list \<times> stream_state" where
  "stream_thinking completionID modelName st upstream =
     (let tf = thinkingFilter st;
          isNewThinkingRound = (lastPhase tf \<noteq> [] \<and> lastPhase tf \<noteq> ''thinking'');
          tf = (if isNewThinkingRound
                then (ResetForNewRound tf)\<lparr>thinkingRoundCount := thinkingRoundCount tf + 1\<rparr>
                else tf);
          tf = tf\<lparr>lastPhase := ''thinking''\<rparr>
      in case ProcessThinking tf (DeltaContent upstream) of
           (reasoningContent, tf) \<Rightarrow>
             let reasoningContent =
                   (if isNewThinkingRound \<and> thinkingRoundCount tf > 1 \<and> reasoningContent \<noteq> []
                    then [CHR 0x0A, CHR 0x0A] @ reasoningContent else reasoningContent)
             in if reasoningContent \<noteq> []
                then (let tf = tf\<lparr>lastOutputChunk := reasoningContent\<rparr> in
                      case Process (searchRefFilter st) reasoningContent of
                        (reasoningContent, srf) \<Rightarrow>
                          let st = st\<lparr>thinkingFilter := tf, searchRefFilter := srf\<rparr> in
                          if reasoningContent \<noteq> []
                          then ([reasoning_chunk completionID modelName reasoningContent],
                                st\<lparr>hasContent := True\<rparr>)
                          else ([], st))
                else ([], st\<lparr>thinkingFilter := tf\<rparr>))"

text \<open>The text before an embedded block, in the branches for image search and tool blocks.\<close>

definition stream_text_before ::
  "string \<Rightarrow> string \<Rightarrow> stream_state \<Rightarrow> string \<Rightarrow> sse_write list \<times> stream_state" where
  "stream_text_before completionID modelName st editContent =
     (let textBeforeBlock = ExtractTextBeforeGlmBlock editContent in
      if textBeforeBlock \<noteq> []
      then (case Process (searchRefFilter st) textBeforeBlock of
              (textBeforeBlock, srf) \<Rightarrow>
                let st = st\<lparr>searchRefFilter := srf\<rparr> in
                if textBeforeBlock \<noteq> []
                then ([content_chunk completionID modelName textBeforeBlock],
                      st\<lparr>hasContent := True\<rparr>)
                else ([], st))
      else ([], st))"

text \<open>
  The pending bibliography and image markdown, the flush of the thinking filter, and the
  bibliography sent as reasoning.
\<close>

definition stream_pending ::
  "string \<Rightarrow> string \<Rightarrow> stream_state \<Rightarrow> sse_write list \<times> stream_state" where
  "stream_pending completionID modelName st =
     (let (w1, st) =
            (if pendingSourcesMarkdown st \<noteq> []
             then ([content_chunk completionID modelName (pendingSourcesMarkdown st)],
                   st\<lparr>hasContent := True, pendingSourcesMarkdown := []\<rparr>)
             else ([], st));
          (w2, st) =
            (if pendingImageSearchMarkdown st \<noteq> []
             then ([content_chunk completionID modelName (pendingImageSearchMarkdown st)],
                   st\<lparr>hasContent := True, pendingImageSearchMarkdown := []\<rparr>)
             else ([], st));
          (thinkingRemaining, tf) = ThinkingFilter_Flush (thinkingFilter st);
          st = st\<lparr>thinkingFilter := tf\<rparr>;
          (w3, st) =
            (if thinkingRemaining \<noteq> []
             then (let tf = tf\<lparr>lastOutputChunk := thinkingRemaining\<rparr> in
                   case Process (searchRefFilter st) thinkingRemaining of
                     (processedRemaining, srf) \<Rightarrow>
                       let st = st\<lparr>thinkingFilter := tf, searchRefFilter := srf\<rparr> in
                       if processedRemaining \<noteq> []
                       then ([reasoning_chunk completionID modelName processedRemaining],
                             st\<lparr>hasContent := True\<rparr>)
                       else ([], st))
             else ([], st));
          (w4, st) =
            (if pendingSourcesMarkdown st \<noteq> [] \<and> hasSeenFirstThinking (thinkingFilter st)
             then ([reasoning_chunk completionID modelName (pendingSourcesMarkdown st)],
                   st\<lparr>hasContent := True, pendingSourcesMarkdown := []\<rparr>)
             else ([], st))
      in (w1 @ w2 @ w3 @ w4, st))"

text \<open>
  The choice of \<open>content\<close> and \<open>reasoningContent\<close> by phase; the last branch is the
  cumulative-diff tracker. \<open>ExtractIncrementalThinking\<close> can panic.
\<close>

definition stream_select ::
  "stream_state \<Rightarrow> UpstreamData \<Rightarrow> string \<Rightarrow> go_panic + (string \<times> string \<times> stream_state)" where
  "stream_select st upstream editContent =
     (if Phase upstream = ''answer'' \<and> DeltaContent upstream \<noteq> []
      then Inr (DeltaContent upstream, [], st)
      else if Phase upstream = ''answer'' \<and> editContent \<noteq> []
      then (if Contains editContent ''</details>''
            then (case ExtractIncrementalThinking (thinkingFilter st) editContent of
                    Inl e \<Rightarrow> Inl e
                  | Inr reasoningContent \<Rightarrow>
                      (case Index editContent ''</details>'' of
                         Some idx \<Rightarrow>
                           let afterDetails = drop (idx + length ''</details>'') editContent;
                               content = (if HasPrefix afterDetails [CHR 0x0A]
                                          then drop 1 afterDetails else afterDetails)
                           in Inr (content, reasoningContent,
                                   st\<lparr>totalContentOutputLength := RuneCount content\<rparr>)
                       | None \<Rightarrow> Inr ([], reasoningContent, st)))
            else Inr ([], [], st))
      else if (Phase upstream = ''other'' \<or> Phase upstream = ''tool_call'') \<and> editContent \<noteq> []
      then (let fullContent = editContent in
            if RuneCount fullContent > totalContentOutputLength st
            then Inr (drop_runes (totalContentOutputLength st) fullContent, [],
                      st\<lparr>totalContentOutputLength := RuneCount fullContent\<rparr>)
            else Inr (fullContent, [], st))
      else Inr ([], [], st))"

definition stream_content ::
  "string \<Rightarrow> string \<Rightarrow> stream_state \<Rightarrow> UpstreamData \<Rightarrow> string
   \<Rightarrow> sse_write list \<times> (go_panic + stream_state)" where
  "stream_content completionID modelName st upstream editContent =
     (case stream_select st upstream editContent of
        Inl e \<Rightarrow> ([], Inl e)
      | Inr (content, reasoningContent, st) \<Rightarrow>
          let (reasoningContent, st) =
                (if reasoningContent \<noteq> []
                 then (case Process (searchRefFilter st) reasoningContent of
                         (a, srf) \<Rightarrow> (case Flush srf of
                           (b, srf) \<Rightarrow> (a @ b, st\<lparr>searchRefFilter := srf\<rparr>)))
                 else (reasoningContent, st));
              (w1, st) =
                (if reasoningContent \<noteq> []
                 then ([reasoning_chunk completionID modelName reasoningContent],
                       st\<lparr>hasContent := True\<rparr>)
                 else ([], st))
          in if content = [] then (w1, Inr st)
             else (case Process (searchRefFilter st) content of
                     (content, srf) \<Rightarrow>
                       let st = st\<lparr>searchRefFilter := srf\<rparr> in
                       if content = [] then (w1, Inr st)
                       else
                         let st = st\<lparr>hasContent := True\<rparr>;
                             st = (if Phase upstream = ''answer'' \<and> DeltaContent upstream \<noteq> []
                                   then st\<lparr>totalContentOutputLength :=
                                            totalContentOutputLength st + RuneCount content\<rparr>
                                   else st)
                         in (w1 @ [content_chunk completionID modelName content], Inr st)))"

text \<open>One turn of the loop, for an event whose phase is not \<open>done\<close>.\<close>

definition stream_step ::
  "go_env \<Rightarrow> string \<Rightarrow> string \<Rightarrow> stream_state \<Rightarrow> UpstreamData
   \<Rightarrow> sse_write list \<times> (go_panic + stream_state)" where
  \<open>stream_step env completionID modelName st upstream =
     (if Phase upstream = ''thinking'' \<and> DeltaContent upstream \<noteq> []
      then (case stream_thinking completionID modelName st upstream of (w, st) \<Rightarrow> (w, Inr st))
      else
        let st = (if Phase upstream \<noteq> []
                  then st\<lparr>thinkingFilter := (thinkingFilter st)\<lparr>lastPhase := Phase upstream\<rparr>\<rparr>
                  else st);
            editContent = GetEditContent env upstream
        in if editContent \<noteq> [] \<and> IsSearchResultContent editContent
           then (let results = ParseSearchResults env editContent in
                 if results \<noteq> []
                 then (let srf = AddSearchResults (searchRefFilter st) results in
                       ([], Inr (st\<lparr>searchRefFilter := srf,
                                    pendingSourcesMarkdown := GetSearchResultsMarkdown env srf\<rparr>)))
                 else ([], Inr st))
           else if editContent \<noteq> [] \<and> Contains editContent ''"search_image"''
           then (case stream_text_before completionID modelName st editContent of
                   (w, st) \<Rightarrow>
                     let results = ParseImageSearchResults env editContent in
                     (w, Inr (if results \<noteq> []
                              then st\<lparr>pendingImageSearchMarkdown := FormatImageSearchResults results\<rparr>
                              else st)))
           else if editContent \<noteq> [] \<and> Contains editContent ''"mcp"''
           then (case stream_text_before completionID modelName st editContent of
                   (w, st) \<Rightarrow> (w, Inr st))
           else if editContent \<noteq> [] \<and> IsSearchToolCall editContent (Phase upstream)
           then ([], Inr st)
           else (case stream_pending completionID modelName st of
                   (w1, st) \<Rightarrow>
                     (case stream_content completionID modelName st upstream editContent of
                        (w2, r) \<Rightarrow> (w1 @ w2, r))))\<close>

fun stream_loop ::
  "go_env \<Rightarrow> string \<Rightarrow> string \<Rightarrow> UpstreamData list \<Rightarrow> stream_state
   \<Rightarrow> sse_write list \<times> (go_panic + stream_state)" where
  "stream_loop env completionID modelName [] st = ([], Inr st)"
| "stream_loop env completionID modelName (upstream # rest) st =
     (if Phase upstream = ''done'' then ([], Inr st)
      else (case stream_step env completionID modelName st upstream of
              (w, Inl e) \<Rightarrow> (w, Inl e)
            | (w, Inr st) \<Rightarrow>
                (case stream_loop env completionID modelName rest st of
                   (w', r) \<Rightarrow> (w @ w', r))))"

text \<open>
  \<open>handleStreamResponse\<close> on the lines that the scanner yields, for a writer that can
  flush: everything written, and the panic that cut the response short, if any.
\<close>

definition handleStreamResponse ::
  "go_env \<Rightarrow> string \<Rightarrow> string \<Rightarrow> string list \<Rightarrow> sse_write list \<times> go_panic option" where
  "handleStreamResponse env completionID modelName lines =
     (case stream_loop env completionID modelName (upstream_events env lines) stream_init of
        (w, Inl e) \<Rightarrow> (w, Some e)
      | (w, Inr st) \<Rightarrow>
          (case Flush (searchRefFilter st) of
             (remaining, srf) \<Rightarrow>
               (w @ (if remaining \<noteq> [] then [content_chunk completionID modelName remaining] else [])
                  @ [final_chunk completionID modelName, Done_terminator],
                None)))"

section \<open>The Claude streaming handler (claude.go, first part)\<close>

text \<open>
  The events the handler writes. A \<open>content_block_delta\<close> carries its index and the text
  of its \<open>text_delta\<close>; \<open>message_start\<close> carries the identifier and the model name, its
  usage counts being zero; \<open>message_delta\<close> carries the stop reason.
\<close>

datatype claude_event =
  message_start string string
| content_block_start nat
| content_block_delta nat string
| content_block_stop nat
| message_delta string
| message_stop

record claude_state =
  c_searchRefFilter :: SearchRefFilter
  c_thinkingFilter :: ThinkingFilter
  c_pendingSourcesMarkdown :: string

definition claude_init :: claude_state where
  "claude_init =
     \<lparr>c_searchRefFilter = NewSearchRefFilter, c_thinkingFilter = NewThinkingFilter,
      c_pendingSourcesMarkdown = []\<rparr>"

text \<open>
  The choice of \<open>content\<close> by phase. The result of \<open>ExtractCompleteThinking\<close> is not used,
  but the call can panic.
\<close>

definition claude_select :: "UpstreamData \<Rightarrow> go_panic + string" where
  "claude_select upstream =
     (if Phase upstream = ''answer'' \<and> DeltaContent upstream \<noteq> []
      then Inr (DeltaContent upstream)
      else if Phase upstream = ''answer'' \<and> EditContent upstream \<noteq> []
      then (if Contains (EditContent upstream) ''</details>''
            then (case ExtractCompleteThinking (EditContent upstream) of
                    Inl e \<Rightarrow> Inl e
                  | Inr _ \<Rightarrow>
                      (case Index (EditContent upstream) (''</details>'' @ [CHR 0x0A]) of
                         Some idx \<Rightarrow>
                           Inr (drop (idx + length (''</details>'' @ [CHR 0x0A]))
                                  (EditContent upstream))
                       | None \<Rightarrow> Inr []))
            else Inr [])
      else if (Phase upstream = ''other'' \<or> Phase upstream = ''tool_call'')
              \<and> EditContent upstream \<noteq> []
      then Inr (EditContent upstream)
      else Inr [])"

text \<open>
  The end of a turn of the loop, after the branches that leave it early: the pending
  bibliography, then the content of the event through the citation filter.
\<close>

definition claude_content ::
  "claude_state \<Rightarrow> UpstreamData \<Rightarrow> claude_event list \<times> (go_panic + claude_state)" where
  "claude_content st upstream =
     (let (w1, st) =
            (if c_pendingSourcesMarkdown st \<noteq> []
             then ([content_block_delta 0 (c_pendingSourcesMarkdown st)],
                   st\<lparr>c_pendingSourcesMarkdown := []\<rparr>)
             else ([], st))
      in case claude_select upstream of
           Inl e \<Rightarrow> (w1, Inl e)
         | Inr content \<Rightarrow>
             if content = [] then (w1, Inr st)
             else (case Process (c_searchRefFilter st) content of
                     (content, srf) \<Rightarrow>
                       let st = st\<lparr>c_searchRefFilter := srf\<rparr> in
                       if content = [] then (w1, Inr st)
                       else (w1 @ [content_block_delta 0 content], Inr st)))"

text \<open>One turn of the loop, for an event whose phase is not \<open>done\<close>.\<close>

definition claude_step ::
  "go_env \<Rightarrow> claude_state \<Rightarrow> UpstreamData \<Rightarrow> claude_event list \<times> (go_panic + claude_state)" where
  "claude_step env st upstream =
     (if Phase upstream = ''thinking'' \<and> DeltaContent upstream \<noteq> []
      then (let st = (if c_pendingSourcesMarkdown st \<noteq> []
                      then st\<lparr>c_pendingSourcesMarkdown := []\<rparr> else st)
            in case ProcessThinking (c_thinkingFilter st) (DeltaContent upstream) of
                 (_, tf) \<Rightarrow> ([], Inr (st\<lparr>c_thinkingFilter := tf\<rparr>)))
      else if EditContent upstream \<noteq> [] \<and> IsSearchResultContent (EditContent upstream)
      then (let results = ParseSearchResults env (EditContent upstream) in
            if results \<noteq> []
            then (let srf = AddSearchResults (c_searchRefFilter st) results in
                  ([], Inr (st\<lparr>c_searchRefFilter := srf,
                               c_pendingSourcesMarkdown := GetSearchResultsMarkdown env srf\<rparr>)))
            else ([], Inr st))
      else if EditContent upstream \<noteq> []
              \<and> IsSearchToolCall (EditContent upstream) (Phase upstream)
      then ([], Inr st)
      else claude_content st upstream)"

fun claude_loop ::
  "go_env \<Rightarrow> UpstreamData list \<Rightarrow> claude_state
   \<Rightarrow> claude_event list \<times> (go_panic + claude_state)" where
  "claude_loop env [] st = ([], Inr st)"
| "claude_loop env (upstream # rest) st =
     (if Phase upstream = ''done'' then ([], Inr st)
      else (case claude_step env st upstream of
              (w, Inl e) \<Rightarrow> (w, Inl e)
            | (w, Inr st) \<Rightarrow>
                (case claude_loop env rest st of (w', r) \<Rightarrow> (w @ w', r))))"

text \<open>
  \<open>handleClaudeStreamResponse\<close> on the lines that the scanner yields, for a writer that
  can flush: everything written, and the panic that cut the response short, if any.
\<close>

definition handleClaudeStreamResponse ::
  "go_env \<Rightarrow> string \<Rightarrow> string \<Rightarrow> string list \<Rightarrow> claude_event list \<times> go_panic option" where
  "handleClaudeStreamResponse env completionID model lines =
     (case claude_loop env (upstream_events env lines) claude_init of
        (w, Inl e) \<Rightarrow>
          ([message_start completionID model, content_block_start 0] @ w, Some e)
      | (w, Inr st) \<Rightarrow>
          (case Flush (c_searchRefFilter st) of
             (remaining, srf) \<Rightarrow>
               ([message_start completionID model, content_block_start 0] @ w
                  @ (if remaining \<noteq> [] then [content_block_delta 0 remaining] else [])
                  @ [content_block_stop 0, message_delta ''end_turn'', message_stop],
                None)))"

section \<open>Notions for the proofs about the two filters\<close>

text \<open>The bytes a match of the prefix pattern can hold after its bracket.\<close>

definition token_chars :: "char set" where
  "token_chars = set ''turnseach0123456789''"

text \<open>The texts that \<open>searchRefPattern\<close> matches.\<close>

definition is_token :: "string \<Rightarrow> bool" where
  "is_token m = (\<exists>d1 d2. d1 \<noteq> [] \<and> d2 \<noteq> [] \<and> (\<forall>c\<in>set d1. is_digit c) \<and> (\<forall>c\<in>set d2. is_digit c)
      \<and> m = lbracket @ ''turn'' @ d1 @ ''search'' @ d2 @ rbracket)"

text \<open>The text with every line marker replaced by a newline.\<close>

definition unmark :: "string \<Rightarrow> string" where
  "unmark s = ReplaceAll s line_marker newline"

text \<open>An occurrence of the line marker that begins in \<open>a\<close> and ends in \<open>b\<close>.\<close>

definition straddles :: "string \<Rightarrow> string \<Rightarrow> bool" where
  "straddles a b \<longleftrightarrow>
     (HasSuffix a [CHR 0x0A] \<and> HasPrefix b [CHR ''>'', CHR '' ''])
     \<or> (HasSuffix a [CHR 0x0A, CHR ''>''] \<and> HasPrefix b [CHR '' ''])"

text \<open>What \<open>ProcessThinking\<close> keeps pending of a rewritten text.\<close>

definition held :: "string \<Rightarrow> string" where
  "held y = (if HasSuffix y held_marker then held_marker
             else if HasSuffix y newline then newline else [])"

section \<open>Notions for the statements about the handlers\<close>

text \<open>
  An environment whose event decoder is a table from payloads to events; its other
  decoders reject every text.
\<close>

definition decode_table :: "(string \<times> UpstreamData) list \<Rightarrow> go_env" where
  "decode_table tab =
     \<lparr>Unmarshal_upstream = map_of tab, Unmarshal_string = (\<lambda>_. None),
      Unmarshal_results = (\<lambda>_. None), Unmarshal_items = (\<lambda>_. None),
      range_results = (\<lambda>_. [])\<rparr>"

text \<open>
  An environment with a second table, from the texts of search-result arrays to their
  records; \<open>range\<close> visits the registered records in the order of that table.
\<close>

definition decode_tables ::
  "(string \<times> UpstreamData) list \<Rightarrow> (string \<times> SearchResult list) list \<Rightarrow> go_env" where
  "decode_tables tab rtab =
     \<lparr>Unmarshal_upstream = map_of tab, Unmarshal_string = (\<lambda>_. None),
      Unmarshal_results = map_of rtab, Unmarshal_items = (\<lambda>_. None),
      range_results = (\<lambda>m. List.map_filter m (remdups (map RefID (concat (map snd rtab)))))\<rparr>"

text \<open>
  The text of an event for the text block: the delta of an answer delta; of an answer
  snapshot the text after the first closing tag followed by a newline, nothing when there
  is none; the snapshot itself in the phases \<open>other\<close> and \<open>tool_call\<close>; nothing in any
  other phase.
\<close>

definition text_after :: "string \<Rightarrow> string \<Rightarrow> string" where
  "text_after s tag = (case Index s tag of None \<Rightarrow> [] | Some i \<Rightarrow> drop (i + length tag) s)"

definition claude_event_text :: "UpstreamData \<Rightarrow> string" where
  "claude_event_text u =
     (if Phase u = ''answer''
      then (if DeltaContent u \<noteq> [] then DeltaContent u
            else text_after (EditContent u) (''</details>'' @ [CHR 0x0A]))
      else if Phase u = ''other'' \<or> Phase u = ''tool_call'' then EditContent u
      else [])"

text \<open>
  The text fragments that the single text block of a Claude stream is to hold, in order,
  for the events of a response, up to the first event of phase \<open>done\<close>. A thinking
  delta gives none. A search-result block gives none: its records are registered and the
  bibliography of the filter becomes pending. A search tool call gives none. Any other
  event gives the pending bibliography and then, when its text is not empty, that text
  through the citation filter. The last fragment is what the citation filter still holds
  at the end. A fragment may be empty.
\<close>

fun claude_text_fragments ::
  "go_env \<Rightarrow> SearchRefFilter \<Rightarrow> string \<Rightarrow> UpstreamData list \<Rightarrow> string list" where
  "claude_text_fragments env srf bib [] = [fst (Flush srf)]"
| "claude_text_fragments env srf bib (u # us) =
     (if Phase u = ''done'' then [fst (Flush srf)]
      else if Phase u = ''thinking'' \<and> DeltaContent u \<noteq> []
      then claude_text_fragments env srf bib us
      else if EditContent u \<noteq> [] \<and> IsSearchResultContent (EditContent u)
      then (if ParseSearchResults env (EditContent u) \<noteq> []
            then claude_text_fragments env
                   (AddSearchResults srf (ParseSearchResults env (EditContent u)))
                   (GetSearchResultsMarkdown env
                      (AddSearchResults srf (ParseSearchResults env (EditContent u))))
                   us
            else claude_text_fragments env srf bib us)
      else if EditContent u \<noteq> [] \<and> IsSearchToolCall (EditContent u) (Phase u)
      then claude_text_fragments env srf bib us
      else if claude_event_text u = []
      then bib # claude_text_fragments env srf [] us
      else bib # fst (Process srf (claude_event_text u))
             # claude_text_fragments env (snd (Process srf (claude_event_text u))) [] us)"

text \<open>
  No thinking delta arrives between a search-result block with records and the next
  event that writes the bibliography; \<open>pending\<close> tells whether such a block came before
  the events.
\<close>

fun no_thinking_over_bibliography :: "go_env \<Rightarrow> bool \<Rightarrow> UpstreamData list \<Rightarrow> bool" where
  "no_thinking_over_bibliography env pending [] = True"
| "no_thinking_over_bibliography env pending (u # us) =
     (if Phase u = ''done'' then True
      else if Phase u = ''thinking'' \<and> DeltaContent u \<noteq> []
      then \<not> pending \<and> no_thinking_over_bibliography env pending us
      else if EditContent u \<noteq> [] \<and> IsSearchResultContent (EditContent u)
      then no_thinking_over_bibliography env
             (pending \<or> ParseSearchResults env (EditContent u) \<noteq> []) us
      else if EditContent u \<noteq> [] \<and> IsSearchToolCall (EditContent u) (Phase u)
      then no_thinking_over_bibliography env pending us
      else no_thinking_over_bibliography env False us)"

section \<open>Claude model names never enable thinking or search\<close>

lemma ParseModelName_GLM46: "ParseModelName ''GLM-4.6'' = (''GLM-4.6'', False, False)"
  by (simp add: ParseModelName_def HasSuffix_def)

lemma ParseModelName_GLM45: "ParseModelName ''GLM-4.5'' = (''GLM-4.5'', False, False)"
  by (simp add: ParseModelName_def HasSuffix_def)

text \<open>
  C10. For every model name of a Claude-format request, the internal model is GLM-4.6 when
  the name contains "opus" or "sonnet" and GLM-4.5 otherwise, and in both cases the
  upstream request is built with thinking and search switched off: the suffix grammar of
  \<open>ParseModelName\<close> only ever sees the two internal names.
\<close>

theorem claude_model_choice:
  "mapClaudeModel n =
     (if Contains n ''opus'' \<or> Contains n ''sonnet'' then ''GLM-4.6'' else ''GLM-4.5'')
   \<and> enable_thinking (HandleClaude_features n) = False
   \<and> auto_web_search (HandleClaude_features n) = False
   \<and> target_model (HandleClaude_features n) =
       (if Contains n ''opus'' \<or> Contains n ''sonnet'' then ''GLM-4-6-API-V1''
        else ''0727-360B-API'')"
  by (simp add: mapClaudeModel_def HandleClaude_features_def makeUpstreamRequest_features_def
      IsThinkingModel_def IsSearchModel_def GetTargetModel_def BaseModelMapping_def
      ParseModelName_GLM46 ParseModelName_GLM45)

theorem claude_model_choice_witness:
  "mapClaudeModel ''claude-3-opus-thinking-search'' = ''GLM-4.6''
   \<and> enable_thinking (HandleClaude_features ''claude-3-opus-thinking-search'') = False
   \<and> auto_web_search (HandleClaude_features ''claude-3-opus-thinking-search'') = False"
  using claude_model_choice [of "''claude-3-opus-thinking-search''"]
  by (simp add: Contains_def HasPrefix_def)


section \<open>The pending buffer of the search-reference filter\<close>

lemma is_digit_token_chars: "is_digit c \<Longrightarrow> c \<in> token_chars"
  by (auto simp: is_digit_def token_chars_def)

lemma opt_group_chars:
  assumes "opt_group c k s" and "c \<in> token_chars" and "\<And>r. k r \<Longrightarrow> set r \<subseteq> token_chars"
  shows "set s \<subseteq> token_chars"
  using assms by (cases s) (auto simp: opt_group_def)

lemma opt_digits_chars:
  assumes "opt_digits k s" and "\<And>r. k r \<Longrightarrow> set r \<subseteq> token_chars"
  shows "set s \<subseteq> token_chars"
proof -
  have "set s = set (takeWhile is_digit s) \<union> set (dropWhile is_digit s)"
    by (metis set_append takeWhile_dropWhile_id)
  moreover have "set (takeWhile is_digit s) \<subseteq> token_chars"
    by (auto dest: set_takeWhileD is_digit_token_chars)
  moreover have "set (dropWhile is_digit s) \<subseteq> token_chars"
    using assms by (auto simp: opt_digits_def)
  ultimately show ?thesis by blast
qed

lemma prefix_groups_chars: "prefix_groups r \<Longrightarrow> set r \<subseteq> token_chars"
  unfolding prefix_groups_def
  by (erule opt_group_chars opt_digits_chars | simp add: token_chars_def)+

lemma prefix_no_E3:
  assumes "match_searchRefPrefix t"
  shows "count_list t (CHR 0xE3) = 1"
proof -
  from assms obtain r where r: "strip_prefix lbracket t = Some r" "prefix_groups r"
    by (auto simp: match_searchRefPrefix_def split: option.splits)
  have t: "t = lbracket @ r"
    using r(1) by (rule strip_prefix_Some)
  have "CHR 0xE3 \<notin> set r"
    using prefix_groups_chars [OF r(2)] by (auto simp: token_chars_def)
  then have "count_list r (CHR 0xE3) = 0"
    by (simp add: count_list_0_iff)
  then show ?thesis
    by (simp add: t lbracket_def)
qed

lemma token_two_E3:
  assumes "match_searchRef s = Some (m, rest)"
  shows "2 \<le> count_list m (CHR 0xE3)"
proof -
  from assms obtain d1 d2 where
    "m = lbracket @ ''turn'' @ d1 @ ''search'' @ d2 @ rbracket"
    by (auto simp: match_searchRef_def Let_def split: option.splits if_splits)
  then show ?thesis
    by (simp add: lbracket_def rbracket_def)
qed

lemma MatchString_count:
  "searchRefPattern_MatchString s \<Longrightarrow> 2 \<le> count_list s (CHR 0xE3)"
proof (induction s)
  case Nil
  then show ?case by simp
next
  case (Cons c s)
  show ?case
  proof (cases "match_searchRef (c # s)")
    case None
    with Cons have "2 \<le> count_list s (CHR 0xE3)" by simp
    then show ?thesis by simp
  next
    case (Some a)
    obtain m rest where a: "a = (m, rest)" by (cases a)
    have "c # s = m @ rest"
      using Some a match_searchRef_split by blast
    moreover have "2 \<le> count_list m (CHR 0xE3)"
      using Some a token_two_E3 by blast
    ultimately show ?thesis
      by (metis count_list_append trans_le_add1)
  qed
qed

lemma prefix_match_no_token:
  "match_searchRefPrefix t \<Longrightarrow> \<not> searchRefPattern_MatchString t"
  using MatchString_count prefix_no_E3 by fastforce

declare hold_loop.simps [simp del]

lemma hold_loop_sound:
  assumes "hold_loop content mx i = Some (out, suffix)"
    and "1 \<le> i" and "mx \<le> length content"
    and "\<not> searchRefPrefixPattern_MatchString (drop (length content - (i - 1)) content)"
  shows "out @ suffix = content \<and> length suffix \<le> mx \<and> suffix \<noteq> []
         \<and> match_searchRefPrefix suffix"
  using assms
proof (induction content mx i rule: hold_loop.induct)
  case (1 content maxPrefixLen i)
  show ?case
  proof (cases "searchRefPrefixPattern_MatchString (drop (length content - i) content)")
    case True
    with "1.prems"(1) have le: "i \<le> maxPrefixLen"
      and eq: "out = take (length content - i) content" "suffix = drop (length content - i) content"
      by (subst (asm) hold_loop.simps, simp add: Let_def split: if_splits)+
    have len: "length suffix = i"
      using le "1.prems"(3) eq by simp
    then have ne: "suffix \<noteq> []" using "1.prems"(2) by auto
    then obtain c s where cs: "suffix = c # s" by (cases suffix) auto
    have "s = drop (length content - (i - 1)) content"
    proof -
      have "s = drop 1 suffix" using cs by simp
      also have "\<dots> = drop (1 + (length content - i)) content"
        unfolding eq by (simp add: add.commute)
      also have "1 + (length content - i) = length content - (i - 1)"
        using le "1.prems"(2,3) by arith
      finally show ?thesis .
    qed
    with "1.prems"(4) have "\<not> searchRefPrefixPattern_MatchString s" by simp
    with True cs eq have "match_searchRefPrefix suffix" by simp
    with eq len le ne show ?thesis by simp
  next
    case False
    with "1.prems"(1) have le: "i \<le> maxPrefixLen"
      and rec: "hold_loop content maxPrefixLen (Suc i) = Some (out, suffix)"
      by (subst (asm) hold_loop.simps, simp add: Let_def split: if_splits)+
    show ?thesis
      using "1.IH" [OF le refl False rec] "1.prems"(3) False by simp
  qed
qed

lemma hold_loop_1:
  assumes "hold_loop content mx 1 = Some (out, suffix)" and "mx \<le> length content"
  shows "out @ suffix = content \<and> length suffix \<le> mx \<and> suffix \<noteq> []
         \<and> match_searchRefPrefix suffix"
  using hold_loop_sound [OF assms(1) _ assms(2)]
  by (simp add: match_searchRefPrefix_def strip_prefix_def HasPrefix_def lbracket_def)


lemma Process_buffer:
  "buffer (snd (Process f content)) = [] \<or>
   (length (buffer (snd (Process f content))) \<le> 20 \<and>
    match_searchRefPrefix (buffer (snd (Process f content))))"
proof -
  let ?c = "ReplaceAllStringFunc (buffer f @ content) (citation_repl (searchResults f))"
  let ?mx = "if length ?c < 20 then length ?c else 20"
  show ?thesis
  proof (cases "hold_loop ?c ?mx 1")
    case None
    then show ?thesis by (simp add: Process_def Let_def)
  next
    case (Some a)
    obtain out suffix where a: "a = (out, suffix)" by (cases a)
    have "length suffix \<le> ?mx \<and> match_searchRefPrefix suffix"
      using hold_loop_1 [of ?c ?mx out suffix] Some a by simp
    then have "length suffix \<le> 20 \<and> match_searchRefPrefix suffix"
      by (simp split: if_splits)
    then show ?thesis
      using Some a by (simp add: Process_def Let_def)
  qed
qed

text \<open>
  C9. The pending buffer of a filter is at most 20 bytes long and holds no complete
  citation token, in a new filter and after every call of \<open>Process\<close>, \<open>Flush\<close> and
  \<open>AddSearchResults\<close> on a filter of which this is true.
\<close>

theorem buffer_invariant:
  assumes "buffer_inv f"
  shows "buffer_inv NewSearchRefFilter
       \<and> buffer_inv (snd (Process f content))
       \<and> buffer_inv (snd (Flush f))
       \<and> buffer_inv (AddSearchResults f results)"
proof -
  have "buffer_inv (snd (Process f content))"
    using Process_buffer [of f content] prefix_match_no_token
    by (auto simp: buffer_inv_def)
  moreover have "buffer_inv (AddSearchResults f results)"
    using assms by (simp add: buffer_inv_def AddSearchResults_def)
  ultimately show ?thesis
    by (simp add: buffer_inv_def NewSearchRefFilter_def Flush_def Let_def)
qed

theorem buffer_invariant_witness:
  "buffer_inv \<lparr>buffer = lbracket @ ''turn1'', searchResults = Map.empty\<rparr>
   \<and> buffer_inv (snd (Process \<lparr>buffer = lbracket @ ''turn1'', searchResults = Map.empty\<rparr>
        (''search2'' @ rbracket @ '' and '' @ lbracket @ ''tu'')))
   \<and> buffer (snd (Process \<lparr>buffer = lbracket @ ''turn1'', searchResults = Map.empty\<rparr>
        (''search2'' @ rbracket @ '' and '' @ lbracket @ ''tu''))) = lbracket @ ''tu''"
proof -
  have inv: "buffer_inv \<lparr>buffer = lbracket @ ''turn1'', searchResults = Map.empty\<rparr>"
    by (simp add: buffer_inv_def lbracket_def match_searchRef_def strip_prefix_def
        HasPrefix_def)
  have "buffer (snd (Process \<lparr>buffer = lbracket @ ''turn1'', searchResults = Map.empty\<rparr>
        (''search2'' @ rbracket @ '' and '' @ lbracket @ ''tu''))) = lbracket @ ''tu''"
    by code_simp
  with inv buffer_invariant [OF inv] show ?thesis
    by simp
qed


section \<open>Matches of the citation pattern\<close>

lemma match_searchRef_token:
  assumes "match_searchRef s = Some (m, rest)"
  shows "is_token m"
proof -
  from assms obtain s1 s3 where
    d1: "takeWhile is_digit s1 \<noteq> []" and d2: "takeWhile is_digit s3 \<noteq> []" and
    m: "m = lbracket @ ''turn'' @ takeWhile is_digit s1 @ ''search'' @
            takeWhile is_digit s3 @ rbracket"
    by (auto simp: match_searchRef_def Let_def split: option.splits if_splits)
  show ?thesis
    unfolding is_token_def
    using d1 d2 m by (blast dest: set_takeWhileD)
qed

lemma strip_prefix_append [simp]: "strip_prefix p (p @ r) = Some r"
  by (simp add: strip_prefix_def HasPrefix_def)

lemma token_match:
  assumes "is_token m"
  shows "match_searchRef (m @ rest) = Some (m, rest)"
proof -
  from assms obtain d1 d2 where d: "d1 \<noteq> []" "d2 \<noteq> []"
    "\<forall>c\<in>set d1. is_digit c" "\<forall>c\<in>set d2. is_digit c"
    and m: "m = lbracket @ ''turn'' @ d1 @ ''search'' @ d2 @ rbracket"
    unfolding is_token_def by blast
  have s1: "strip_prefix (lbracket @ ''turn'') (m @ rest)
            = Some (d1 @ ''search'' @ d2 @ rbracket @ rest)"
    using strip_prefix_append [of "lbracket @ ''turn''" "d1 @ ''search'' @ d2 @ rbracket @ rest"]
    by (simp add: m)
  have t1: "takeWhile is_digit (d1 @ ''search'' @ d2 @ rbracket @ rest) = d1"
    using d(3) by (simp add: takeWhile_append2 is_digit_def)
  have dr1: "dropWhile is_digit (d1 @ ''search'' @ d2 @ rbracket @ rest)
             = ''search'' @ d2 @ rbracket @ rest"
    using d(3) by (simp add: dropWhile_append2 is_digit_def)
  have s3: "strip_prefix ''search'' (''search'' @ d2 @ rbracket @ rest) = Some (d2 @ rbracket @ rest)"
    by (rule strip_prefix_append)
  have t2: "takeWhile is_digit (d2 @ rbracket @ rest) = d2"
    using d(4) by (simp add: takeWhile_append2 is_digit_def rbracket_def)
  have dr2: "dropWhile is_digit (d2 @ rbracket @ rest) = rbracket @ rest"
    using d(4) by (simp add: dropWhile_append2 is_digit_def rbracket_def)
  show ?thesis
    unfolding match_searchRef_def s1 
    by (simp only: option.case Let_def t1 dr1 s3 t2 dr2 d(1,2) if_False strip_prefix_append m)
qed

lemma match_searchRef_iff:
  "match_searchRef s = Some (m, rest) \<longleftrightarrow> s = m @ rest \<and> is_token m"
  using match_searchRef_split match_searchRef_token token_match by blast

lemma match_searchRef_extend:
  "match_searchRef s = Some (m, rest) \<Longrightarrow> match_searchRef (s @ z) = Some (m, rest @ z)"
  by (simp add: match_searchRef_iff)

lemma match_searchRef_restrict:
  assumes "match_searchRef (p @ w) = Some (m, r)" and "length w \<le> length r"
  shows "\<exists>r'. r = r' @ w \<and> match_searchRef p = Some (m, r')"
proof -
  from assms(1) have eq: "p @ w = m @ r" and tok: "is_token m"
    by (simp_all add: match_searchRef_iff)
  from eq obtain us where "(p = m @ us \<and> us @ w = r) \<or> (p @ us = m \<and> w = us @ r)"
    by (auto simp: append_eq_append_conv2)
  then have "\<exists>r'. r = r' @ w \<and> p = m @ r'"
  proof
    assume "p = m @ us \<and> us @ w = r"
    then show ?thesis by auto
  next
    assume a: "p @ us = m \<and> w = us @ r"
    with assms(2) have "us = []" by auto
    with a show ?thesis by auto
  qed
  then obtain r' where "r = r' @ w" "p = m @ r'" by blast
  with tok show ?thesis
    by (auto simp: match_searchRef_iff)
qed


lemma is_digit_not_E3: "is_digit c \<Longrightarrow> c \<noteq> CHR 0xE3"
  by (auto simp: is_digit_def)

lemma is_token_shape:
  assumes "is_token m"
  obtains body where "m = CHR 0xE3 # CHR 0x80 # CHR 0x90 # body @ [CHR 0xE3, CHR 0x80, CHR 0x91]"
    and "CHR 0xE3 \<notin> set body"
proof -
  from assms obtain d1 d2 where d: "\<forall>c\<in>set d1. is_digit c" "\<forall>c\<in>set d2. is_digit c"
    and m: "m = lbracket @ ''turn'' @ d1 @ ''search'' @ d2 @ rbracket"
    unfolding is_token_def by blast
  have "CHR 0xE3 \<notin> set (''turn'' @ d1 @ ''search'' @ d2)"
    using d by (auto dest: is_digit_not_E3)
  moreover have "m = CHR 0xE3 # CHR 0x80 # CHR 0x90 # (''turn'' @ d1 @ ''search'' @ d2) @ [CHR 0xE3, CHR 0x80, CHR 0x91]"
    by (simp add: m lbracket_def rbracket_def)
  ultimately show ?thesis using that by blast
qed


lemma no_straddle_lbracket:
  assumes "match_searchRef (p @ w) = Some (m, r)" and "p \<noteq> []" and "HasPrefix w lbracket"
  shows "length w \<le> length r"
proof (rule ccontr)
  assume "\<not> length w \<le> length r"
  then have lt: "length r < length w" by simp
  from assms(1) have eq: "p @ w = m @ r" and tok: "is_token m"
    by (simp_all add: match_searchRef_iff)
  from tok obtain body where
    m: "m = CHR 0xE3 # CHR 0x80 # CHR 0x90 # body @ [CHR 0xE3, CHR 0x80, CHR 0x91]"
    and body: "CHR 0xE3 \<notin> set body"
    by (rule is_token_shape)
  from assms(3) obtain w' where w: "w = CHR 0xE3 # CHR 0x80 # CHR 0x90 # w'"
  proof -
    have "take (length lbracket) w = lbracket" using assms(3) by (simp add: HasPrefix_def)
    then have "w = lbracket @ drop (length lbracket) w"
      by (metis append_take_drop_id)
    then show ?thesis using that by (simp add: lbracket_def)
  qed
  define i where "i = length p"
  have "length p + length w = length m + length r"
    using eq by (metis length_append)
  with lt have i_lt: "i < length m" by (simp add: i_def)
  have i_pos: "0 < i" using assms(2) by (simp add: i_def)
  have "(p @ w) ! i = CHR 0xE3" "(p @ w) ! (i + 2) = CHR 0x90"
    by (simp_all add: i_def w nth_append)
  then have at_i: "(m @ r) ! i = CHR 0xE3" and at_i2: "(m @ r) ! (i + 2) = CHR 0x90"
    by (simp_all add: eq)
  from at_i i_lt have mi: "m ! i = CHR 0xE3"
    by (simp add: nth_append)
  show False
  proof (cases "i < 3")
    case True
    with i_pos have "i = 1 \<or> i = 2" by arith
    with mi show False by (auto simp: m)
  next
    case False
    then obtain j where j: "i = Suc (Suc (Suc j))"
      by (metis not_less numeral_3_eq_3 add_Suc_shift add_Suc le_Suc_ex add_0)
    with i_lt have j_lt: "j < length body + 3" by (simp add: m)
    from mi have mj: "(body @ [CHR 0xE3, CHR 0x80, CHR 0x91]) ! j = CHR 0xE3"
      by (simp add: m j)
    from at_i2 have mj2: "(body @ [CHR 0xE3, CHR 0x80, CHR 0x91] @ r) ! (j + 2) = CHR 0x90"
      by (simp add: m j)
    consider "j < length body" | "j = length body" | "j = length body + 1" | "j = length body + 2"
      using j_lt by arith
    then show False
    proof cases
      case 1
      with mj have "body ! j = CHR 0xE3" by (simp add: nth_append)
      with 1 body show False by (metis nth_mem)
    next
      case 2
      with mj2 show False by (simp add: nth_append)
    next
      case 3
      with mj show False by (simp add: nth_append)
    next
      case 4
      with mj show False by (simp add: nth_append)
    qed
  qed
qed

lemma Replace_no_match:
  "\<not> searchRefPattern_MatchString s \<Longrightarrow> ReplaceAllStringFunc s repl = s"
  by (induction s) (auto split: option.splits)

lemma Replace_append:
  assumes "\<And>u t m r. x = u @ t \<Longrightarrow> t \<noteq> [] \<Longrightarrow> match_searchRef (t @ w) = Some (m, r)
             \<Longrightarrow> length w \<le> length r"
  shows "ReplaceAllStringFunc (x @ w) repl = ReplaceAllStringFunc x repl @ ReplaceAllStringFunc w repl"
  using assms
proof (induction "length x" arbitrary: x rule: less_induct)
  case less
  show ?case
  proof (cases x)
    case Nil
    then show ?thesis by simp
  next
    case (Cons c s)
    show ?thesis
    proof (cases "match_searchRef ((c # s) @ w)")
      case None
      have "match_searchRef (c # s) = None"
      proof (rule ccontr)
        assume "match_searchRef (c # s) \<noteq> None"
        then obtain m r where "match_searchRef (c # s) = Some (m, r)" by auto
        from match_searchRef_extend [OF this, of w] None show False by simp
      qed
      moreover have "ReplaceAllStringFunc (s @ w) repl
                     = ReplaceAllStringFunc s repl @ ReplaceAllStringFunc w repl"
      proof (rule less.hyps)
        show "length s < length x" by (simp add: Cons)
        fix u t m r assume "s = u @ t" "t \<noteq> []" "match_searchRef (t @ w) = Some (m, r)"
        then show "length w \<le> length r"
          using less.prems [of "c # u" t m r] by (simp add: Cons)
      qed
      ultimately show ?thesis using None by (simp add: Cons)
    next
      case (Some a)
      obtain m r where a: "a = (m, r)" by (cases a)
      have "length w \<le> length r"
        using less.prems [of "[]" "c # s" m r] Some a by (simp add: Cons)
      with Some a obtain r' where r': "r = r' @ w" "match_searchRef (c # s) = Some (m, r')"
        using match_searchRef_restrict by blast
      then have xs: "c # s = m @ r'" by (simp add: match_searchRef_iff)
      have "ReplaceAllStringFunc (r' @ w) repl
            = ReplaceAllStringFunc r' repl @ ReplaceAllStringFunc w repl"
      proof (rule less.hyps)
        show "length r' < length x"
          using match_searchRef_shorter [OF r'(2)] by (simp add: Cons)
        fix u t m' r'' assume "r' = u @ t" "t \<noteq> []" "match_searchRef (t @ w) = Some (m', r'')"
        then show "length w \<le> length r''"
          using less.prems [of "m @ u" t m' r''] xs by (simp add: Cons)
      qed
      then show ?thesis using Some a r' by (simp add: Cons)
    qed
  qed
qed

lemma Replace_before_lbracket:
  assumes "HasPrefix w lbracket"
  shows "ReplaceAllStringFunc (x @ w) repl = ReplaceAllStringFunc x repl @ ReplaceAllStringFunc w repl"
  by (rule Replace_append) (rule no_straddle_lbracket [OF _ _ assms])


lemma Process_split:
  "fst (Process f content) @ buffer (snd (Process f content))
   = ReplaceAllStringFunc (buffer f @ content) (citation_repl (searchResults f))"
proof -
  let ?c = "ReplaceAllStringFunc (buffer f @ content) (citation_repl (searchResults f))"
  let ?mx = "if length ?c < 20 then length ?c else 20"
  show ?thesis
  proof (cases "hold_loop ?c ?mx 1")
    case None
    then show ?thesis by (auto simp: Process_def Let_def)
  next
    case (Some a)
    obtain out suffix where a: "a = (out, suffix)" by (cases a)
    have "out @ suffix = ?c"
      using hold_loop_1 [of ?c ?mx out suffix] Some a by simp
    then show ?thesis
      using Some a by (auto simp: Process_def Let_def)
  qed
qed

lemma Process_searchResults [simp]: "searchResults (snd (Process f content)) = searchResults f"
  by (simp add: Process_def Let_def split: option.splits prod.splits)

lemma Flush_after_Process:
  "fst (Flush (snd (Process f content))) = buffer (snd (Process f content))"
proof -
  have "\<not> searchRefPattern_MatchString (buffer (snd (Process f content)))"
    using Process_buffer [of f content] prefix_match_no_token by auto
  then show ?thesis
    by (simp add: Flush_def Let_def Replace_no_match)
qed

section \<open>Tokens with an unregistered identifier\<close>

text \<open>
  C6, as stated, fails. With no result registered, one call of \<open>Process\<close> on a token
  wrapped in the two halves of the same token returns that token literally: the inner
  token is deleted, and what the deletion joins is not scanned again.
\<close>

theorem unregistered_token_counterexample:
  "searchResults NewSearchRefFilter ''turn1search1'' = None
   \<and> fst (Process NewSearchRefFilter
        (lbracket @ ''turn1search1'' @ (lbracket @ ''turn1search1'' @ rbracket) @ rbracket))
     = lbracket @ ''turn1search1'' @ rbracket"
  by code_simp

text \<open>
  C6, amended. In every call of \<open>Process\<close>, a citation token that stands in the pending
  buffer followed by the input, and whose identifier is not registered, is replaced by the
  empty string: what the call returns followed by what \<open>Flush\<close> then returns is the
  rewritten text before the token followed by the rewritten text after it.
\<close>

theorem unregistered_token_dropped:
  assumes "buffer f @ content = pre @ t"
    and "match_searchRef t = Some (m, rest)"
    and "searchResults f (refID_of m) = None"
  shows "fst (Process f content) @ fst (Flush (snd (Process f content)))
         = ReplaceAllStringFunc pre (citation_repl (searchResults f))
           @ ReplaceAllStringFunc rest (citation_repl (searchResults f))"
proof -
  let ?repl = "citation_repl (searchResults f)"
  from assms(2) have t: "t = m @ rest" and tok: "is_token m"
    by (simp_all add: match_searchRef_iff)
  from tok obtain body where "m = CHR 0xE3 # CHR 0x80 # CHR 0x90 # body @ [CHR 0xE3, CHR 0x80, CHR 0x91]"
    by (rule is_token_shape)
  then have "HasPrefix t lbracket"
    by (simp add: t HasPrefix_def lbracket_def)
  then have "ReplaceAllStringFunc (pre @ t) ?repl
             = ReplaceAllStringFunc pre ?repl @ ReplaceAllStringFunc t ?repl"
    by (rule Replace_before_lbracket)
  moreover have "ReplaceAllStringFunc t ?repl = ReplaceAllStringFunc rest ?repl"
  proof -
    obtain c s where cs: "t = c # s"
      using \<open>HasPrefix t lbracket\<close> by (cases t) (auto simp: HasPrefix_def lbracket_def)
    show ?thesis
      using assms(2,3) by (simp add: cs citation_repl_def)
  qed
  ultimately show ?thesis
    by (simp add: Flush_after_Process Process_split assms(1))
qed

theorem unregistered_token_dropped_witness:
  "fst (Process NewSearchRefFilter (''a'' @ lbracket @ ''turn1search1'' @ rbracket @ ''b''))
   @ fst (Flush (snd (Process NewSearchRefFilter
       (''a'' @ lbracket @ ''turn1search1'' @ rbracket @ ''b'')))) = ''ab''"
proof -
  have 1: "buffer NewSearchRefFilter @ (''a'' @ lbracket @ ''turn1search1'' @ rbracket @ ''b'')
           = ''a'' @ (lbracket @ ''turn1search1'' @ rbracket @ ''b'')"
    by (simp add: NewSearchRefFilter_def)
  have 2: "match_searchRef (lbracket @ ''turn1search1'' @ rbracket @ ''b'')
           = Some (lbracket @ ''turn1search1'' @ rbracket, ''b'')"
    by code_simp
  have 3: "searchResults NewSearchRefFilter (refID_of (lbracket @ ''turn1search1'' @ rbracket)) = None"
    by (simp add: NewSearchRefFilter_def)
  have 4: "ReplaceAllStringFunc ''a'' (citation_repl (searchResults NewSearchRefFilter)) = ''a''"
    "ReplaceAllStringFunc ''b'' (citation_repl (searchResults NewSearchRefFilter)) = ''b''"
    by code_simp+
  have "fst (Process NewSearchRefFilter (''a'' @ lbracket @ ''turn1search1'' @ rbracket @ ''b''))
        @ fst (Flush (snd (Process NewSearchRefFilter
            (''a'' @ lbracket @ ''turn1search1'' @ rbracket @ ''b''))))
        = ReplaceAllStringFunc ''a'' (citation_repl (searchResults NewSearchRefFilter))
          @ ReplaceAllStringFunc ''b'' (citation_repl (searchResults NewSearchRefFilter))"
    by (rule unregistered_token_dropped [OF 1 2 3])
  also have "\<dots> = ''ab''"
    unfolding 4 by simp
  finally show ?thesis .
qed


section \<open>Chunk boundaries of the search-reference filter\<close>

lemma tokens_registered_suffix:
  "tokens_registered rs (a @ b) \<Longrightarrow> tokens_registered rs b"
  by (induction a) auto

lemma tokens_registered_at:
  "tokens_registered rs (u @ t) \<Longrightarrow> match_searchRef t = Some (m, r) \<Longrightarrow> rs (refID_of m) \<noteq> None"
  by (drule tokens_registered_suffix) (cases t; auto dest: match_searchRef_shorter)

lemma straddle_okD:
  "straddle_ok p z \<Longrightarrow> p = u @ t \<Longrightarrow> t \<noteq> [] \<Longrightarrow> match_searchRef (t @ z) = Some (m, r)
   \<Longrightarrow> length z \<le> length r \<or> (length t \<le> 20 \<and> match_searchRefPrefix t)"
proof (induction p arbitrary: u)
  case Nil
  then show ?case by simp
next
  case (Cons c p)
  show ?case
  proof (cases u)
    case Nil
    with Cons.prems show ?thesis by auto
  next
    case (Cons a u')
    with Cons.prems Cons.IH [of u'] show ?thesis by auto
  qed
qed

lemma hold_loop_None:
  assumes "hold_loop content mx i = None" and "i \<le> j" and "j \<le> mx"
  shows "\<not> searchRefPrefixPattern_MatchString (drop (length content - j) content)"
  using assms
proof (induction content mx i rule: hold_loop.induct)
  case (1 content maxPrefixLen i)
  from "1.prems" have le: "i \<le> maxPrefixLen" by simp
  from "1.prems"(1) le have nm: "\<not> searchRefPrefixPattern_MatchString (drop (length content - i) content)"
    by (subst (asm) hold_loop.simps) (simp add: Let_def split: if_splits)
  from "1.prems"(1) le nm have rec: "hold_loop content maxPrefixLen (Suc i) = None"
    by (subst (asm) hold_loop.simps) (simp add: Let_def split: if_splits)
  show ?case
  proof (cases "i = j")
    case True
    with nm show ?thesis by simp
  next
    case False
    with "1.prems" have "Suc i \<le> j" by simp
    from "1.IH" [OF le refl nm rec this "1.prems"(3)] show ?thesis .
  qed
qed

lemma prefix_MatchString_anchored:
  "match_searchRefPrefix t \<Longrightarrow> searchRefPrefixPattern_MatchString t"
  by (cases t) auto

lemma citation_link_last: "citation_link result \<noteq> [] \<and> last (citation_link result) = CHR '')''"
  by (simp add: citation_link_def)

lemma prefix_match_shape:
  assumes "match_searchRefPrefix h"
  shows "HasPrefix h lbracket" and "CHR '')'' \<notin> set h" and "h \<noteq> []"
proof -
  from assms obtain r where r: "strip_prefix lbracket h = Some r" "prefix_groups r"
    by (auto simp: match_searchRefPrefix_def split: option.splits)
  have h: "h = lbracket @ r"
    using r(1) by (rule strip_prefix_Some)
  show "HasPrefix h lbracket" by (simp add: h HasPrefix_def)
  show "CHR '')'' \<notin> set h"
    using prefix_groups_chars [OF r(2)] by (auto simp: h lbracket_def token_chars_def)
  show "h \<noteq> []" by (simp add: h lbracket_def)
qed

lemma tokens_registered_prefix:
  "tokens_registered rs (x @ z) \<Longrightarrow> tokens_registered rs x"
proof (induction x)
  case Nil
  then show ?case by simp
next
  case (Cons c s)
  then have rest: "tokens_registered rs s" by simp
  show ?case
  proof (cases "match_searchRef (c # s)")
    case None
    with rest show ?thesis by simp
  next
    case (Some a)
    obtain m r where a: "a = (m, r)" by (cases a)
    from match_searchRef_extend [of "c # s" m r z] Some a
    have "match_searchRef (c # s @ z) = Some (m, r @ z)" by simp
    with Cons.prems have "rs (refID_of m) \<noteq> None" by simp
    with rest Some a show ?thesis by simp
  qed
qed

lemma Replace_no_paren:
  assumes "tokens_registered rs x"
    and "CHR '')'' \<notin> set (ReplaceAllStringFunc x (citation_repl rs))"
  shows "ReplaceAllStringFunc x (citation_repl rs) = x"
  using assms
proof (induction x)
  case Nil
  then show ?case by simp
next
  case (Cons c s)
  show ?case
  proof (cases "match_searchRef (c # s)")
    case None
    with Cons show ?thesis by simp
  next
    case (Some a)
    obtain m r where a: "a = (m, r)" by (cases a)
    from Cons.prems(1) Some a obtain result where res: "rs (refID_of m) = Some result"
      by auto
    have "CHR '')'' \<in> set (citation_link result)"
      by (simp add: citation_link_def)
    with Cons.prems(2) Some a res show ?thesis
      by (simp add: citation_repl_def)
  qed
qed

lemma Replace_suffix_held:
  assumes "tokens_registered rs x" and "match_searchRefPrefix h"
    and "ReplaceAllStringFunc x (citation_repl rs) = out @ h"
  shows "\<exists>x'. x = x' @ h \<and> ReplaceAllStringFunc x' (citation_repl rs) = out"
  using assms(1,3)
proof (induction "length x" arbitrary: x out rule: less_induct)
  case less
  let ?R = "\<lambda>s. ReplaceAllStringFunc s (citation_repl rs)"
  note hs = prefix_match_shape [OF assms(2)]
  show ?case
  proof (cases x)
    case Nil
    with less.prems hs(3) show ?thesis by simp
  next
    case (Cons c s)
    show ?thesis
    proof (cases "match_searchRef (c # s)")
      case None
      then have Rx: "?R x = c # ?R s" by (simp add: Cons)
      show ?thesis
      proof (cases out)
        case Nil
        with less.prems(2) have "?R x = h" by simp
        with hs(2) less.prems(1) have "?R x = x"
          using Replace_no_paren by metis
        with \<open>?R x = h\<close> Nil show ?thesis by auto
      next
        case (Cons o1 out')
        with less.prems(2) Rx have c: "o1 = c" and Rs: "?R s = out' @ h" by simp_all
        have "tokens_registered rs s"
          using less.prems(1) \<open>x = c # s\<close> by simp
        with less.hyps [of s out'] Rs obtain x' where x': "s = x' @ h" "?R x' = out'"
          by (auto simp: \<open>x = c # s\<close>)
        have "match_searchRef (c # x') = None"
        proof (rule ccontr)
          assume "match_searchRef (c # x') \<noteq> None"
          then obtain m r where "match_searchRef (c # x') = Some (m, r)" by auto
          from match_searchRef_extend [OF this, of h] None x' show False by simp
        qed
        then have "?R (c # x') = c # out'" using x' by simp
        with x' c Cons \<open>x = c # s\<close> show ?thesis
          by (intro exI [of _ "c # x'"]) simp
      qed
    next
      case (Some a)
      obtain m r where a: "a = (m, r)" by (cases a)
      from less.prems(1) Some a obtain result where res: "rs (refID_of m) = Some result"
        by (auto simp: Cons)
      let ?l = "citation_link result"
      have Rx: "?R x = ?l @ ?R r"
        using Some a res by (simp add: Cons citation_repl_def)
      with less.prems(2) have eq: "?l @ ?R r = out @ h" by simp
      then obtain us where us: "(?l = out @ us \<and> us @ ?R r = h) \<or> (?l @ us = out \<and> ?R r = us @ h)"
        by (auto simp: append_eq_append_conv2)
      have "\<exists>out'. out = ?l @ out' \<and> ?R r = out' @ h"
        using us
      proof
        assume b: "?l @ us = out \<and> ?R r = us @ h"
        then show ?thesis by auto
      next
        assume b: "?l = out @ us \<and> us @ ?R r = h"
        have "us = []"
        proof (rule ccontr)
          assume "us \<noteq> []"
          with b have "last us = last ?l" by (metis last_appendR)
          then have "last us = CHR '')''" by (simp add: citation_link_last)
          with \<open>us \<noteq> []\<close> have "CHR '')'' \<in> set us" by (metis last_in_set)
          with b hs(2) show False by auto
        qed
        with b show ?thesis by auto
      qed
      then obtain out' where out': "out = ?l @ out'" "?R r = out' @ h" by blast
      have xmr: "x = m @ r" and tok: "is_token m"
        using Some a by (simp_all add: Cons match_searchRef_iff)
      have "tokens_registered rs r"
        using less.prems(1) xmr tokens_registered_suffix by blast
      moreover have "length r < length x"
        using match_searchRef_shorter Some a Cons by blast
      ultimately obtain x' where x': "r = x' @ h" "?R x' = out'"
        using less.hyps [of r out'] out'(2) by auto
      have "match_searchRef (m @ x') = Some (m, x')"
        using tok by (rule token_match)
      moreover obtain c' s' where "m @ x' = c' # s'"
        using xmr Cons by (cases m) (use tok is_token_shape in \<open>auto\<close>)
      ultimately have "?R (m @ x') = ?l @ out'"
        using res x'(2) by (simp add: citation_repl_def)
      with x' xmr out' show ?thesis
        by (intro exI [of _ "m @ x'"]) simp
    qed
  qed
qed

lemma Replace_prefix_match_suffix:
  assumes "match_searchRefPrefix t"
  shows "ReplaceAllStringFunc (u @ t) repl = ReplaceAllStringFunc u repl @ t"
proof -
  have "ReplaceAllStringFunc (u @ t) repl = ReplaceAllStringFunc u repl @ ReplaceAllStringFunc t repl"
    using prefix_match_shape(1) [OF assms] by (rule Replace_before_lbracket)
  moreover have "ReplaceAllStringFunc t repl = t"
    using assms prefix_match_no_token Replace_no_match by blast
  ultimately show ?thesis by simp
qed

lemma Process_no_hold:
  assumes "buffer (snd (Process f c)) = []"
    and "ReplaceAllStringFunc (buffer f @ c) (citation_repl (searchResults f)) = u @ t"
    and "t \<noteq> []" and "length t \<le> 20"
  shows "\<not> match_searchRefPrefix t"
proof
  assume pm: "match_searchRefPrefix t"
  let ?y = "ReplaceAllStringFunc (buffer f @ c) (citation_repl (searchResults f))"
  let ?mx = "if length ?y < 20 then length ?y else 20"
  have y_ne: "?y \<noteq> []" using assms(2,3) by simp
  then have x_ne: "buffer f @ c \<noteq> []" by auto
  show False
  proof (cases "hold_loop ?y ?mx 1")
    case None
    have "length t \<le> ?mx" using assms(2,4) by simp
    moreover have "1 \<le> length t" using assms(3) by (cases t) auto
    ultimately have "\<not> searchRefPrefixPattern_MatchString (drop (length ?y - length t) ?y)"
      using hold_loop_None [OF None] by blast
    moreover have "drop (length ?y - length t) ?y = t"
      by (simp add: assms(2))
    ultimately show False
      using pm prefix_MatchString_anchored by simp
  next
    case (Some a)
    obtain out suffix where a: "a = (out, suffix)" by (cases a)
    have "suffix \<noteq> []"
      using hold_loop_1 [of ?y ?mx out suffix] Some a by simp
    moreover have "buffer (snd (Process f c)) = suffix"
      using Some a x_ne y_ne by (auto simp: Process_def Let_def)
    ultimately show False using assms(1) by simp
  qed
qed

lemma HasPrefix_append: "HasPrefix h p \<Longrightarrow> HasPrefix (h @ z) p"
proof -
  assume "HasPrefix h p"
  then have t: "take (length p) h = p" by (simp add: HasPrefix_def)
  then have "length p \<le> length h"
    by (metis length_take min.cobounded1)
  with t show ?thesis by (simp add: HasPrefix_def)
qed

lemma Process_step:
  assumes reg: "tokens_registered (searchResults f) (buffer f @ c @ z)"
    and str: "\<forall>u t m r. buffer f @ c = u @ t \<and> t \<noteq> [] \<and> match_searchRef (t @ z) = Some (m, r)
               \<longrightarrow> length z \<le> length r \<or> (length t \<le> 20 \<and> match_searchRefPrefix t)"
  shows "ReplaceAllStringFunc (buffer f @ c @ z) (citation_repl (searchResults f))
         = fst (Process f c)
           @ ReplaceAllStringFunc (buffer (snd (Process f c)) @ z) (citation_repl (searchResults f))"
    and "\<exists>x'. buffer f @ c = x' @ buffer (snd (Process f c))"
proof -
  let ?repl = "citation_repl (searchResults f)"
  let ?R = "\<lambda>s. ReplaceAllStringFunc s ?repl"
  let ?x = "buffer f @ c"
  let ?out = "fst (Process f c)"
  let ?h = "buffer (snd (Process f c))"
  have split: "?out @ ?h = ?R ?x" by (rule Process_split)
  have regx: "tokens_registered (searchResults f) ?x"
    using reg tokens_registered_prefix [of "searchResults f" ?x z] by simp
  have "?R (?x @ z) = ?out @ ?R (?h @ z) \<and> (\<exists>x'. ?x = x' @ ?h)"
  proof (cases "?h = []")
    case True
    have "?R (?x @ z) = ?R ?x @ ?R z"
    proof (rule Replace_append)
      fix u t m r
      assume ut: "?x = u @ t" "t \<noteq> []" "match_searchRef (t @ z) = Some (m, r)"
      show "length z \<le> length r"
      proof (rule ccontr)
        assume "\<not> length z \<le> length r"
        with str ut have t: "length t \<le> 20" "match_searchRefPrefix t" by blast+
        have "?R ?x = ?R u @ t"
          unfolding ut(1) using t(2) by (rule Replace_prefix_match_suffix)
        from Process_no_hold [OF True this ut(2) t(1)] t(2) show False by simp
      qed
    qed
    with split True show ?thesis by simp
  next
    case False
    with Process_buffer [of f c] have pm: "match_searchRefPrefix ?h" by auto
    from Replace_suffix_held [OF regx pm split [symmetric]]
    obtain x' where x': "?x = x' @ ?h" "?R x' = ?out" by blast
    have "HasPrefix (?h @ z) lbracket"
      using prefix_match_shape(1) [OF pm] by (rule HasPrefix_append)
    then have "?R (x' @ ?h @ z) = ?R x' @ ?R (?h @ z)"
      by (rule Replace_before_lbracket)
    moreover have "?x @ z = x' @ ?h @ z" using x'(1) by simp
    ultimately show ?thesis using x' by auto
  qed
  then show "?R (buffer f @ c @ z) = ?out @ ?R (?h @ z)" and "\<exists>x'. ?x = x' @ ?h"
    by simp_all
qed

lemma stream_output_Nil: "stream_output f [] = fst (Flush f)"
  by (simp add: stream_output_def)

lemma stream_output_Cons:
  "stream_output f (c # cs) = fst (Process f c) @ stream_output (snd (Process f c)) cs"
  by (simp add: stream_output_def split: prod.splits)

lemma Flush_Replace:
  "fst (Flush f) = ReplaceAllStringFunc (buffer f) (citation_repl (searchResults f))"
  by (simp add: Flush_def Let_def)

lemma stream_output_Replace:
  assumes "tokens_registered (searchResults f) (buffer f @ concat cs)"
    and "boundaries_ok (before @ buffer f) cs"
  shows "stream_output f cs
         = ReplaceAllStringFunc (buffer f @ concat cs) (citation_repl (searchResults f))"
  using assms
proof (induction cs arbitrary: f before)
  case Nil
  show ?case by (simp add: stream_output_Nil Flush_Replace)
next
  case (Cons c cs)
  let ?f' = "snd (Process f c)"
  let ?z = "concat cs"
  from Cons.prems(2) have so: "straddle_ok (before @ buffer f @ c) ?z"
    and bo: "boundaries_ok (before @ buffer f @ c) cs" by simp_all
  have reg: "tokens_registered (searchResults f) (buffer f @ c @ ?z)"
    using Cons.prems(1) by simp
  have str: "\<forall>u t m r. buffer f @ c = u @ t \<and> t \<noteq> [] \<and> match_searchRef (t @ ?z) = Some (m, r)
               \<longrightarrow> length ?z \<le> length r \<or> (length t \<le> 20 \<and> match_searchRefPrefix t)"
  proof (intro allI impI, elim conjE)
    fix u t m r
    assume "buffer f @ c = u @ t" "t \<noteq> []" "match_searchRef (t @ ?z) = Some (m, r)"
    then show "length ?z \<le> length r \<or> (length t \<le> 20 \<and> match_searchRefPrefix t)"
      using straddle_okD [OF so, of "before @ u" t m r] by simp
  qed
  note step = Process_step [of f c ?z, OF reg str]
  from step(2) obtain x' where x': "buffer f @ c = x' @ buffer ?f'" by blast
  have reg': "tokens_registered (searchResults ?f') (buffer ?f' @ concat cs)"
  proof -
    have "buffer f @ c @ ?z = x' @ (buffer ?f' @ ?z)"
      using x' by (metis append.assoc)
    with reg tokens_registered_suffix show ?thesis by simp
  qed
  have bo': "boundaries_ok ((before @ x') @ buffer ?f') cs"
    using bo x' by (metis append.assoc)
  have "stream_output ?f' cs
        = ReplaceAllStringFunc (buffer ?f' @ concat cs) (citation_repl (searchResults ?f'))"
    using Cons.IH [OF reg' bo'] .
  then show ?case
    using step(1) by (simp add: stream_output_Cons)
qed

lemma straddle_ok_end: "straddle_ok p []"
  by (induction p) (auto split: option.splits)


text \<open>
  C1, as stated, fails. With the identifier \<open>turn1search12345678\<close> registered, the token
  split after its first 21 bytes is emitted literally, while the same text given whole is
  rewritten into the link: the 21 bytes pending at the boundary are more than the 20 that
  \<open>Process\<close> looks back.
\<close>

theorem chunk_boundary_counterexample:
  "tokens_registered
     (searchResults (AddSearchResults NewSearchRefFilter
        [\<lparr>Title = ''X'', URL = ''u'', Index_of = 1, RefID = ''turn1search12345678''\<rparr>]))
     (concat [lbracket @ ''turn1search1234567'', ''8'' @ rbracket])
   \<and> stream_output (AddSearchResults NewSearchRefFilter
        [\<lparr>Title = ''X'', URL = ''u'', Index_of = 1, RefID = ''turn1search12345678''\<rparr>])
        [lbracket @ ''turn1search1234567'', ''8'' @ rbracket]
      = lbracket @ ''turn1search12345678'' @ rbracket
   \<and> stream_output (AddSearchResults NewSearchRefFilter
        [\<lparr>Title = ''X'', URL = ''u'', Index_of = 1, RefID = ''turn1search12345678''\<rparr>])
        [concat [lbracket @ ''turn1search1234567'', ''8'' @ rbracket]]
      = [CHR ''['', CHR 0x5C, CHR ''['', CHR ''1'', CHR 0x5C, CHR '']'', CHR '']'',
         CHR ''('', CHR ''u'', CHR '')'']"
  by code_simp

text \<open>
  C1, amended. For a filter with an empty pending buffer, every text in which each
  citation token has a registered identifier, and every partition of the text into chunks
  in which a token split by a chunk boundary has at most 20 bytes before the boundary and
  no boundary cuts the encoding of a bracket: the outputs of \<open>Process\<close> over the chunks
  followed by the output of \<open>Flush\<close> are, concatenated, what \<open>Process\<close> on the whole
  text followed by \<open>Flush\<close> gives.
\<close>

theorem chunk_boundary_independence:
  assumes "buffer f = []"
    and "tokens_registered (searchResults f) (concat cs)"
    and "boundaries_ok [] cs"
  shows "stream_output f cs = stream_output f [concat cs]"
proof -
  have "stream_output f cs
        = ReplaceAllStringFunc (buffer f @ concat cs) (citation_repl (searchResults f))"
    using assms stream_output_Replace [of f cs "[]"] by simp
  moreover have "stream_output f [concat cs]
        = ReplaceAllStringFunc (buffer f @ concat [concat cs]) (citation_repl (searchResults f))"
    using assms stream_output_Replace [of f "[concat cs]" "[]"] by (simp add: straddle_ok_end)
  ultimately show ?thesis by simp
qed

theorem chunk_boundary_independence_witness:
  "buffer (AddSearchResults NewSearchRefFilter
      [\<lparr>Title = ''X'', URL = ''u'', Index_of = 1, RefID = ''turn1search1''\<rparr>]) = []
   \<and> tokens_registered
       (searchResults (AddSearchResults NewSearchRefFilter
          [\<lparr>Title = ''X'', URL = ''u'', Index_of = 1, RefID = ''turn1search1''\<rparr>]))
       (concat [''See '' @ lbracket @ ''turn'', ''1search1'' @ rbracket @ ''.''])
   \<and> boundaries_ok [] [''See '' @ lbracket @ ''turn'', ''1search1'' @ rbracket @ ''.'']
   \<and> stream_output (AddSearchResults NewSearchRefFilter
        [\<lparr>Title = ''X'', URL = ''u'', Index_of = 1, RefID = ''turn1search1''\<rparr>])
        [''See '' @ lbracket @ ''turn'', ''1search1'' @ rbracket @ ''.'']
     = stream_output (AddSearchResults NewSearchRefFilter
        [\<lparr>Title = ''X'', URL = ''u'', Index_of = 1, RefID = ''turn1search1''\<rparr>])
        [concat [''See '' @ lbracket @ ''turn'', ''1search1'' @ rbracket @ ''.'']]"
proof -
  let ?f = "AddSearchResults NewSearchRefFilter
      [\<lparr>Title = ''X'', URL = ''u'', Index_of = 1, RefID = ''turn1search1''\<rparr>]"
  let ?cs = "[''See '' @ lbracket @ ''turn'', ''1search1'' @ rbracket @ ''.'']"
  have 1: "buffer ?f = []"
    by (simp add: AddSearchResults_def NewSearchRefFilter_def)
  have 2: "tokens_registered (searchResults ?f) (concat ?cs)"
    by code_simp
  have 3: "boundaries_ok [] ?cs"
    by code_simp
  from chunk_boundary_independence [OF 1 2 3] 1 2 3 show ?thesis
    by blast
qed


section \<open>The first delta of a thinking round\<close>

lemma HasSuffix_take: "HasSuffix s p \<Longrightarrow> take (length s - length p) s @ p = s"
  by (metis HasSuffix_def append_take_drop_id)

lemma ProcessThinking_content_split:
  "fst (ProcessThinking_content f d) @ thinking_buffer (snd (ProcessThinking_content f d))
   = ReplaceAll (thinking_buffer f @ d) line_marker newline"
proof -
  let ?c = "ReplaceAll (thinking_buffer f @ d) line_marker newline"
  have l2: "length held_marker = 2" and l1: "length newline = 1"
    by (simp_all add: held_marker_def newline_def)
  have "HasSuffix ?c held_marker \<Longrightarrow> take (length ?c - 2) ?c @ held_marker = ?c"
    using HasSuffix_take [of ?c held_marker] unfolding l2 .
  moreover have "HasSuffix ?c newline \<Longrightarrow> take (length ?c - 1) ?c @ newline = ?c"
    using HasSuffix_take [of ?c newline] unfolding l1 .
  ultimately show ?thesis
    by (simp add: ProcessThinking_content_def Let_def)
qed

text \<open>
  C4. \<open>ProcessThinking\<close> sets \<open>hasSeenFirstThinking\<close> at the first delta of a round,
  before it looks for the marker, so only that delta is suppressed. When the header of
  the block is cut over two deltas, the first has no marker and is suppressed, and the
  second is returned from its first byte, the rest of the header included, where the
  claim has the output resume just after the marker; a second delta without a marker is
  returned too, where the claim has it suppressed. \<open>ExtractCompleteThinking\<close> cuts the
  snapshot of the same text at its first marker, wherever it stands.
\<close>

theorem header_cut_over_two_deltas:
  "Index ''<details>'' marker = None
   \<and> fst (ProcessThinking NewThinkingFilter ''<details>'') = []
   \<and> fst (ProcessThinking (snd (ProcessThinking NewThinkingFilter ''<details>''))
            (''<summary>x</summary>'' @ line_marker @ ''hello''))
     = ''<summary>x</summary>'' @ newline @ ''hello''
   \<and> thinking_stream_output NewThinkingFilter
       [''<details>'', ''<summary>x</summary>'' @ line_marker @ ''hello'']
     = ''<summary>x</summary>'' @ newline @ ''hello''
   \<and> ExtractCompleteThinking
       (''<details>'' @ ''<summary>x</summary>'' @ line_marker @ ''hello'' @ closing_tag)
     = Inr ''hello''
   \<and> Index ''<summary>'' marker = None
   \<and> fst (ProcessThinking (snd (ProcessThinking NewThinkingFilter ''<details>''))
            ''<summary>'')
     = ''<summary>''"
  by code_simp

text \<open>
  What the code does after a first delta without the marker, for any filter and any two
  deltas: the first delta is suppressed and only recorded as seen; the text returned for
  the second, followed by the text it leaves pending, is the pending buffer followed by
  the whole delta, with every line marker replaced by a newline.
\<close>

lemma first_delta_without_marker:
  assumes "\<not> hasSeenFirstThinking f" and "Index d marker = None"
  shows "fst (ProcessThinking f d) = []
       \<and> snd (ProcessThinking f d) = f\<lparr>hasSeenFirstThinking := True\<rparr>
       \<and> fst (ProcessThinking (snd (ProcessThinking f d)) d')
           @ thinking_buffer (snd (ProcessThinking (snd (ProcessThinking f d)) d'))
         = ReplaceAll (thinking_buffer f @ d') line_marker newline"
proof -
  have 1: "ProcessThinking f d = ([], f\<lparr>hasSeenFirstThinking := True\<rparr>)"
    using assms by (simp add: ProcessThinking_def Let_def)
  have 2: "ProcessThinking (f\<lparr>hasSeenFirstThinking := True\<rparr>) d'
           = ProcessThinking_content (f\<lparr>hasSeenFirstThinking := True\<rparr>) d'"
    by (simp add: ProcessThinking_def)
  show ?thesis
    using ProcessThinking_content_split [of "f\<lparr>hasSeenFirstThinking := True\<rparr>" d']
    by (simp add: 1 2)
qed

lemma first_delta_without_marker_example:
  "\<not> hasSeenFirstThinking NewThinkingFilter \<and> Index ''<details>'' marker = None
   \<and> fst (ProcessThinking NewThinkingFilter ''<details>'') = []
   \<and> fst (ProcessThinking (snd (ProcessThinking NewThinkingFilter ''<details>'')) ''x> y'')
       @ thinking_buffer
           (snd (ProcessThinking (snd (ProcessThinking NewThinkingFilter ''<details>'')) ''x> y''))
     = ''x> y''"
proof -
  have 1: "\<not> hasSeenFirstThinking NewThinkingFilter"
    by (simp add: NewThinkingFilter_def)
  have 2: "Index ''<details>'' marker = None"
    by code_simp
  have 3: "ReplaceAll (thinking_buffer NewThinkingFilter @ ''x> y'') line_marker newline = ''x> y''"
    by code_simp
  from first_delta_without_marker [OF 1 2, of "''x> y''"] show ?thesis
    unfolding 3 using 1 2 by blast
qed


section \<open>Thinking deltas and the snapshot block\<close>

lemma unmark_Nil [simp]: "unmark [] = []"
  by (simp add: unmark_def)

lemma HasPrefix_line_marker:
  "HasPrefix s line_marker \<longleftrightarrow> (\<exists>r. s = CHR 0x0A # CHR ''>'' # CHR '' '' # r)"
proof
  assume "HasPrefix s line_marker"
  then have "s = line_marker @ drop (length line_marker) s"
    by (metis HasPrefix_def append_take_drop_id)
  then show "\<exists>r. s = CHR 0x0A # CHR ''>'' # CHR '' '' # r"
    by (auto simp: line_marker_def)
next
  assume "\<exists>r. s = CHR 0x0A # CHR ''>'' # CHR '' '' # r"
  then show "HasPrefix s line_marker"
    by (auto simp: HasPrefix_def line_marker_def)
qed

lemma unmark_marker [simp]: "unmark (CHR 0x0A # CHR ''>'' # CHR '' '' # r) = CHR 0x0A # unmark r"
  by (simp add: unmark_def line_marker_def newline_def HasPrefix_def)

lemma unmark_other: "\<not> HasPrefix (c # s) line_marker \<Longrightarrow> unmark (c # s) = c # unmark s"
  by (simp add: unmark_def)

lemma unmark_empty_iff [simp]: "unmark s = [] \<longleftrightarrow> s = []"
  by (cases s) (auto simp: unmark_def newline_def)

lemma HasSuffix_Cons: "HasSuffix s p \<Longrightarrow> HasSuffix (c # s) p"
  by (auto simp: HasSuffix_def Suc_diff_le)

lemma straddles_Cons: "straddles s b \<Longrightarrow> straddles (c # s) b"
  by (auto simp: straddles_def HasSuffix_Cons)

lemma unmark_append:
  assumes "\<not> straddles a b"
  shows "unmark (a @ b) = unmark a @ unmark b"
  using assms
proof (induction "length a" arbitrary: a rule: less_induct)
  case less
  show ?case
  proof (cases a)
    case Nil
    then show ?thesis by simp
  next
    case (Cons c s)
    show ?thesis
    proof (cases "HasPrefix a line_marker")
      case True
      then obtain r where r: "a = CHR 0x0A # CHR ''>'' # CHR '' '' # r"
        by (auto simp: HasPrefix_line_marker)
      have "\<not> straddles r b"
        using less.prems r straddles_Cons by blast
      with less.hyps [of r] r show ?thesis by simp
    next
      case False
      have nb: "\<not> HasPrefix (a @ b) line_marker"
      proof
        assume "HasPrefix (a @ b) line_marker"
        then obtain r where r: "a @ b = CHR 0x0A # CHR ''>'' # CHR '' '' # r"
          by (auto simp: HasPrefix_line_marker)
        with False Cons have "a = [CHR 0x0A] \<or> a = [CHR 0x0A, CHR ''>'']"
          by (cases s; cases "tl s"; auto simp: HasPrefix_line_marker)
        with r less.prems show False
          by (auto simp: straddles_def HasSuffix_def HasPrefix_def)
      qed
      have "\<not> straddles s b"
        using less.prems Cons straddles_Cons by blast
      with less.hyps [of s] Cons have "unmark (s @ b) = unmark s @ unmark b" by simp
      with False nb Cons show ?thesis
        by (simp add: unmark_other)
    qed
  qed
qed

lemma unmark_Cons_keep:
  assumes "\<not> HasPrefix (c # u @ x) line_marker"
  shows "unmark (c # u) = c # unmark u"
proof -
  have "\<not> HasPrefix (c # u) line_marker"
    using assms HasPrefix_append [of "c # u" line_marker x] by auto
  then show ?thesis by (rule unmark_other)
qed

lemma unmark_ends_newline:
  assumes "unmark U = out @ [CHR 0x0A]"
  shows "(\<exists>U'. U = U' @ [CHR 0x0A] \<and> unmark U' = out)
       \<or> (\<exists>U'. U = U' @ [CHR 0x0A, CHR ''>'', CHR '' ''] \<and> unmark U' = out)"
  using assms
proof (induction "length U" arbitrary: U out rule: less_induct)
  case less
  show ?case
  proof (cases U)
    case Nil
    with less.prems show ?thesis by simp
  next
    case (Cons c s)
    show ?thesis
    proof (cases "HasPrefix U line_marker")
      case True
      then obtain r where r: "U = CHR 0x0A # CHR ''>'' # CHR '' '' # r"
        by (auto simp: HasPrefix_line_marker)
      with less.prems have eq: "CHR 0x0A # unmark r = out @ [CHR 0x0A]" by simp
      show ?thesis
      proof (cases out)
        case Nil
        with eq have "r = []" by simp
        with r Nil show ?thesis by auto
      next
        case (Cons o1 out')
        with eq have o1: "o1 = CHR 0x0A" and nr: "unmark r = out' @ [CHR 0x0A]" by simp_all
        from less.hyps [of r out'] nr r
        consider U' where "r = U' @ [CHR 0x0A]" "unmark U' = out'"
          | U' where "r = U' @ [CHR 0x0A, CHR ''>'', CHR '' '']" "unmark U' = out'"
          by auto
        then show ?thesis
        proof cases
          case 1
          then have "U = (CHR 0x0A # CHR ''>'' # CHR '' '' # U') @ [CHR 0x0A]
                     \<and> unmark (CHR 0x0A # CHR ''>'' # CHR '' '' # U') = out"
            using r Cons o1 by simp
          then show ?thesis by blast
        next
          case 2
          then have "U = (CHR 0x0A # CHR ''>'' # CHR '' '' # U') @ [CHR 0x0A, CHR ''>'', CHR '' '']
                     \<and> unmark (CHR 0x0A # CHR ''>'' # CHR '' '' # U') = out"
            using r Cons o1 by simp
          then show ?thesis by blast
        qed
      qed
    next
      case False
      with Cons less.prems have eq: "c # unmark s = out @ [CHR 0x0A]"
        by (simp add: unmark_other)
      show ?thesis
      proof (cases out)
        case Nil
        with eq have "s = []" "c = CHR 0x0A" by simp_all
        with \<open>U = c # s\<close> Nil show ?thesis by auto
      next
        case (Cons o1 out')
        with eq have o1: "o1 = c" and ns: "unmark s = out' @ [CHR 0x0A]" by simp_all
        from less.hyps [of s out'] ns \<open>U = c # s\<close>
        consider U' where "s = U' @ [CHR 0x0A]" "unmark U' = out'"
          | U' where "s = U' @ [CHR 0x0A, CHR ''>'', CHR '' '']" "unmark U' = out'"
          by auto
        then show ?thesis
        proof cases
          case 1
          have "unmark (c # U') = c # unmark U'"
            using False \<open>U = c # s\<close> 1(1) by (intro unmark_Cons_keep [of c U' "[CHR 0x0A]"]) simp
          then have "U = (c # U') @ [CHR 0x0A] \<and> unmark (c # U') = out"
            using 1 \<open>U = c # s\<close> Cons o1 by simp
          then show ?thesis by blast
        next
          case 2
          have "unmark (c # U') = c # unmark U'"
            using False \<open>U = c # s\<close> 2(1)
            by (intro unmark_Cons_keep [of c U' "[CHR 0x0A, CHR ''>'', CHR '' '']"]) simp
          then have "U = (c # U') @ [CHR 0x0A, CHR ''>'', CHR '' ''] \<and> unmark (c # U') = out"
            using 2 \<open>U = c # s\<close> Cons o1 by simp
          then show ?thesis by blast
        qed
      qed
    qed
  qed
qed

lemma unmark_ends_other:
  assumes "unmark U = out @ [a]" and "a \<noteq> CHR 0x0A"
  shows "\<exists>U'. U = U' @ [a] \<and> unmark U' = out"
  using assms(1)
proof (induction "length U" arbitrary: U out rule: less_induct)
  case less
  show ?case
  proof (cases U)
    case Nil
    with less.prems show ?thesis by simp
  next
    case (Cons c s)
    show ?thesis
    proof (cases "HasPrefix U line_marker")
      case True
      then obtain r where r: "U = CHR 0x0A # CHR ''>'' # CHR '' '' # r"
        by (auto simp: HasPrefix_line_marker)
      with less.prems have eq: "CHR 0x0A # unmark r = out @ [a]" by simp
      with assms(2) obtain out' where out': "out = CHR 0x0A # out'" "unmark r = out' @ [a]"
        by (cases out) auto
      from less.hyps [of r out'] out'(2) r obtain U' where "r = U' @ [a]" "unmark U' = out'"
        by auto
      then have "U = (CHR 0x0A # CHR ''>'' # CHR '' '' # U') @ [a]
                 \<and> unmark (CHR 0x0A # CHR ''>'' # CHR '' '' # U') = out"
        using r out'(1) by simp
      then show ?thesis by blast
    next
      case False
      with Cons less.prems have eq: "c # unmark s = out @ [a]"
        by (simp add: unmark_other)
      show ?thesis
      proof (cases out)
        case Nil
        with eq have "s = []" "c = a" by simp_all
        with \<open>U = c # s\<close> Nil show ?thesis by auto
      next
        case (Cons o1 out')
        with eq have o1: "o1 = c" and ns: "unmark s = out' @ [a]" by simp_all
        from less.hyps [of s out'] ns \<open>U = c # s\<close> obtain U' where U': "s = U' @ [a]" "unmark U' = out'"
          by auto
        have "unmark (c # U') = c # unmark U'"
          using False \<open>U = c # s\<close> U'(1) by (intro unmark_Cons_keep [of c U' "[a]"]) simp
        then have "U = (c # U') @ [a] \<and> unmark (c # U') = out"
          using U' \<open>U = c # s\<close> Cons o1 by simp
        then show ?thesis by blast
      qed
    qed
  qed
qed

lemma unmark_ends_held:
  assumes "unmark U = out @ [CHR 0x0A, CHR ''>'']"
  shows "(\<exists>U'. U = U' @ [CHR 0x0A, CHR ''>''] \<and> unmark U' = out)
       \<or> (\<exists>U'. U = U' @ [CHR 0x0A, CHR ''>'', CHR '' '', CHR ''>''] \<and> unmark U' = out)"
proof -
  from assms have "unmark U = (out @ [CHR 0x0A]) @ [CHR ''>'']" by simp
  from unmark_ends_other [OF this] obtain V where V: "U = V @ [CHR ''>'']" "unmark V = out @ [CHR 0x0A]"
    by auto
  from unmark_ends_newline [OF V(2)] V(1) show ?thesis by auto
qed

lemma HasSuffix_iff: "HasSuffix s p \<longleftrightarrow> (\<exists>u. s = u @ p)"
proof
  assume "HasSuffix s p"
  then have "s = take (length s - length p) s @ p"
    by (simp add: HasSuffix_take)
  then show "\<exists>u. s = u @ p" ..
next
  assume "\<exists>u. s = u @ p"
  then show "HasSuffix s p" by (auto simp: HasSuffix_def)
qed

lemma ProcessThinking_content_held:
  "ProcessThinking_content f d =
     (take (length (unmark (thinking_buffer f @ d)) - length (held (unmark (thinking_buffer f @ d))))
        (unmark (thinking_buffer f @ d)),
      f\<lparr>thinking_buffer := held (unmark (thinking_buffer f @ d))\<rparr>)"
  by (simp add: ProcessThinking_content_def Let_def held_def unmark_def held_marker_def newline_def
      numeral_2_eq_2)

lemma held_split: "take (length y - length (held y)) y @ held y = y"
  by (simp add: held_def HasSuffix_take)

lemma unmark_single [simp]: "unmark [c] = [c]"
  by (simp add: unmark_def HasPrefix_def line_marker_def)

lemma unmark_pair [simp]: "unmark [a, b] = [a, b]"
  by (simp add: unmark_def HasPrefix_def line_marker_def)

lemma unmark_gt [simp]: "unmark (CHR ''>'' # s) = CHR ''>'' # unmark s"
  by (simp add: unmark_other HasPrefix_line_marker)

lemma unmark_newline_Cons:
  "\<not> HasPrefix c marker \<Longrightarrow> unmark (CHR 0x0A # c) = CHR 0x0A # unmark c"
proof (rule unmark_other)
  assume n: "\<not> HasPrefix c marker"
  show "\<not> HasPrefix (CHR 0x0A # c) line_marker"
  proof
    assume "HasPrefix (CHR 0x0A # c) line_marker"
    then obtain r where "c = CHR ''>'' # CHR '' '' # r"
      by (auto simp: HasPrefix_line_marker)
    with n show False by (simp add: HasPrefix_def marker_def)
  qed
qed

lemma unmark_held_Cons:
  "\<not> HasPrefix c '' '' \<Longrightarrow> unmark (CHR 0x0A # CHR ''>'' # c) = CHR 0x0A # CHR ''>'' # unmark c"
proof -
  assume n: "\<not> HasPrefix c '' ''"
  have "\<not> HasPrefix (CHR 0x0A # CHR ''>'' # c) line_marker"
  proof
    assume "HasPrefix (CHR 0x0A # CHR ''>'' # c) line_marker"
    then obtain r where "c = CHR '' '' # r"
      by (auto simp: HasPrefix_line_marker)
    with n show False by (simp add: HasPrefix_def)
  qed
  then show ?thesis by (simp add: unmark_other)
qed

lemma unmark_carry:
  assumes "delta_boundary_ok U c"
  shows "unmark (U @ c)
         = take (length (unmark U) - length (held (unmark U))) (unmark U) @ unmark (held (unmark U) @ c)"
proof -
  let ?out = "take (length (unmark U) - length (held (unmark U))) (unmark U)"
  have split: "?out @ held (unmark U) = unmark U" by (rule held_split)
  consider (h2) "HasSuffix (unmark U) held_marker"
    | (h1) "\<not> HasSuffix (unmark U) held_marker" "HasSuffix (unmark U) newline"
    | (h0) "\<not> HasSuffix (unmark U) held_marker" "\<not> HasSuffix (unmark U) newline"
    by blast
  then show ?thesis
  proof cases
    case h2
    then have h: "held (unmark U) = [CHR 0x0A, CHR ''>'']" by (simp add: held_def held_marker_def)
    with split have "unmark U = ?out @ [CHR 0x0A, CHR ''>'']" by simp
    from unmark_ends_held [OF this]
    consider U' where "U = U' @ [CHR 0x0A, CHR ''>'']" "unmark U' = ?out"
      | U' where "U = U' @ [CHR 0x0A, CHR ''>'', CHR '' '', CHR ''>'']" "unmark U' = ?out"
      by blast
    then show ?thesis
    proof cases
      case 1
      have "unmark (U' @ ([CHR 0x0A, CHR ''>''] @ c)) = unmark U' @ unmark ([CHR 0x0A, CHR ''>''] @ c)"
        by (rule unmark_append) (simp add: straddles_def HasPrefix_def)
      with 1 h show ?thesis by simp
    next
      case 2
      have "HasSuffix U (line_marker @ ''>'')"
        using 2(1) by (auto simp: HasSuffix_iff line_marker_def)
      with assms have nc: "\<not> HasPrefix c '' ''" by (simp add: delta_boundary_ok_def)
      have "unmark (U' @ ([CHR 0x0A, CHR ''>'', CHR '' '', CHR ''>''] @ c))
            = unmark U' @ unmark ([CHR 0x0A, CHR ''>'', CHR '' '', CHR ''>''] @ c)"
        by (rule unmark_append) (simp add: straddles_def HasPrefix_def)
      with 2 h nc show ?thesis by (simp add: unmark_held_Cons)
    qed
  next
    case h1
    then have h: "held (unmark U) = [CHR 0x0A]" by (simp add: held_def newline_def)
    with split have "unmark U = ?out @ [CHR 0x0A]" by simp
    from unmark_ends_newline [OF this]
    consider U' where "U = U' @ [CHR 0x0A]" "unmark U' = ?out"
      | U' where "U = U' @ [CHR 0x0A, CHR ''>'', CHR '' '']" "unmark U' = ?out"
      by blast
    then show ?thesis
    proof cases
      case 1
      have "unmark (U' @ ([CHR 0x0A] @ c)) = unmark U' @ unmark ([CHR 0x0A] @ c)"
        by (rule unmark_append) (simp add: straddles_def HasPrefix_def)
      with 1 h show ?thesis by simp
    next
      case 2
      have "HasSuffix U line_marker"
        using 2(1) by (auto simp: HasSuffix_iff line_marker_def)
      with assms have nc: "\<not> HasPrefix c marker" by (simp add: delta_boundary_ok_def)
      have "unmark (U' @ ([CHR 0x0A, CHR ''>'', CHR '' ''] @ c))
            = unmark U' @ unmark ([CHR 0x0A, CHR ''>'', CHR '' ''] @ c)"
        by (rule unmark_append) (simp add: straddles_def HasPrefix_def)
      with 2 h nc show ?thesis by (simp add: unmark_newline_Cons)
    qed
  next
    case h0
    then have h: "held (unmark U) = []" by (simp add: held_def)
    have "\<not> straddles U c"
    proof
      assume "straddles U c"
      then consider V where "U = V @ [CHR 0x0A]" | V where "U = V @ [CHR 0x0A, CHR ''>'']"
        by (auto simp: straddles_def HasSuffix_iff)
      then show False
      proof cases
        case 1
        have "unmark (V @ [CHR 0x0A]) = unmark V @ unmark [CHR 0x0A]"
          by (rule unmark_append) (simp add: straddles_def HasPrefix_def)
        with 1 h0(2) show False by (simp add: HasSuffix_iff newline_def)
      next
        case 2
        have "unmark (V @ [CHR 0x0A, CHR ''>'']) = unmark V @ unmark [CHR 0x0A, CHR ''>'']"
          by (rule unmark_append) (simp add: straddles_def HasPrefix_def)
        with 2 h0(1) show False by (simp add: HasSuffix_iff held_marker_def)
      qed
    qed
    then have "unmark (U @ c) = unmark U @ unmark c" by (rule unmark_append)
    with h show ?thesis by simp
  qed
qed

lemma HasSuffix_single: "HasSuffix s [a] \<longleftrightarrow> s \<noteq> [] \<and> last s = a"
  by (cases s rule: rev_cases) (auto simp: HasSuffix_iff)

lemma HasSuffix_pair:
  "HasSuffix s [a, b] \<longleftrightarrow> s \<noteq> [] \<and> last s = b \<and> HasSuffix (butlast s) [a]"
proof (cases s rule: rev_cases)
  case Nil
  then show ?thesis by (simp add: HasSuffix_iff)
next
  case (snoc ys y)
  have "(\<exists>u. ys @ [y] = u @ [a, b]) \<longleftrightarrow> y = b \<and> (\<exists>u. ys = u @ [a])"
  proof
    assume "\<exists>u. ys @ [y] = u @ [a, b]"
    then obtain u where "ys @ [y] = (u @ [a]) @ [b]" by auto
    then show "y = b \<and> (\<exists>u. ys = u @ [a])" by (metis append1_eq_conv)
  next
    assume "y = b \<and> (\<exists>u. ys = u @ [a])"
    then show "\<exists>u. ys @ [y] = u @ [a, b]" by auto
  qed
  then show ?thesis by (simp add: snoc HasSuffix_iff)
qed

lemma held_Nil [simp]: "held [] = []"
  by (simp add: held_def HasSuffix_def held_marker_def newline_def)

lemma unmark_hd_newline: "unmark (CHR 0x0A # r) \<noteq> [] \<and> hd (unmark (CHR 0x0A # r)) = CHR 0x0A"
  by (cases "HasPrefix (CHR 0x0A # r) line_marker")
     (auto simp: HasPrefix_line_marker unmark_other)

lemma HasSuffix_append_single:
  "HasSuffix (out @ y) [a] \<longleftrightarrow> (if y = [] then HasSuffix out [a] else HasSuffix y [a])"
  by (simp add: HasSuffix_single)

lemma HasSuffix_append_pair:
  "HasSuffix (out @ y) [a, b] \<longleftrightarrow>
     (if y = [] then HasSuffix out [a, b]
      else if butlast y = [] then y = [b] \<and> HasSuffix out [a]
      else HasSuffix y [a, b])"
proof (cases y rule: rev_cases)
  case Nil
  then show ?thesis by simp
next
  case (snoc ys c)
  then show ?thesis
    by (simp add: HasSuffix_pair [of "out @ ys @ [c]"] HasSuffix_pair [of "ys @ [c]"]
        butlast_append HasSuffix_append_single HasSuffix_single [of "[]"])
qed

lemma held_carry:
  assumes "held (out @ h) = h" and "y = unmark (h @ c)"
  shows "held (out @ y) = held y"
proof (cases "h = []")
  case True
  with assms(1) have no: "\<not> HasSuffix out [CHR 0x0A, CHR ''>'']" "\<not> HasSuffix out [CHR 0x0A]"
    by (auto simp: held_def held_marker_def newline_def split: if_splits)
  have "HasSuffix (out @ y) [CHR 0x0A] = HasSuffix y [CHR 0x0A]"
    using no by (simp add: HasSuffix_append_single HasSuffix_single [of "[]"])
  moreover have "HasSuffix (out @ y) [CHR 0x0A, CHR ''>''] = HasSuffix y [CHR 0x0A, CHR ''>'']"
    using no by (auto simp add: HasSuffix_append_pair HasSuffix_pair [of y] HasSuffix_single [of "[]"])
  ultimately show ?thesis
    by (simp add: held_def held_marker_def newline_def)
next
  case False
  with assms(1) have "h = held_marker \<or> h = newline"
    by (auto simp: held_def split: if_splits)
  then obtain r where "h @ c = CHR 0x0A # r"
    by (auto simp: held_marker_def newline_def)
  with assms(2) unmark_hd_newline [of r] have y: "y \<noteq> []" "hd y = CHR 0x0A" by simp_all
  then obtain y' where y': "y = CHR 0x0A # y'" by (cases y) auto
  have "HasSuffix (out @ y) [CHR 0x0A] = HasSuffix y [CHR 0x0A]"
    using y by (simp add: HasSuffix_append_single)
  moreover have "HasSuffix (out @ y) [CHR 0x0A, CHR ''>''] = HasSuffix y [CHR 0x0A, CHR ''>'']"
    by (cases y') (simp_all add: y' HasSuffix_append_pair HasSuffix_pair [of "[CHR 0x0A]"]
      HasSuffix_single [of "[]"])
  ultimately show ?thesis
    by (simp add: held_def held_marker_def newline_def)
qed


lemma ProcessThinking_deltas_seen:
  "hasSeenFirstThinking f \<Longrightarrow> ProcessThinking f d = ProcessThinking_content f d"
  by (simp add: ProcessThinking_def)

lemma thinking_stream_output_Nil: "thinking_stream_output f [] = thinking_buffer f"
  by (simp add: thinking_stream_output_def ThinkingFilter_Flush_def)

lemma thinking_stream_output_Cons:
  "thinking_stream_output f (d # ds)
   = fst (ProcessThinking f d) @ thinking_stream_output (snd (ProcessThinking f d)) ds"
  by (simp add: thinking_stream_output_def split: prod.splits)

lemma thinking_stream_norm:
  assumes "hasSeenFirstThinking f"
    and "out @ thinking_buffer f = unmark U"
    and "thinking_buffer f = held (unmark U)"
    and "delta_boundaries_ok U ds"
  shows "out @ thinking_stream_output f ds = unmark (U @ concat ds)"
  using assms
proof (induction ds arbitrary: f U out)
  case Nil
  then show ?case by (simp add: thinking_stream_output_Nil)
next
  case (Cons d ds)
  let ?h = "thinking_buffer f"
  let ?y = "unmark (?h @ d)"
  let ?o = "take (length ?y - length (held ?y)) ?y"
  let ?f' = "f\<lparr>thinking_buffer := held ?y\<rparr>"
  have pt: "ProcessThinking f d = (?o, ?f')"
    using Cons.prems(1) by (simp add: ProcessThinking_deltas_seen ProcessThinking_content_held)
  from Cons.prems(4) have ok: "delta_boundary_ok U d" and oks: "delta_boundaries_ok (U @ d) ds"
    by simp_all
  have "length (unmark U) = length out + length (held (unmark U))"
    using Cons.prems(2,3) by (metis length_append)
  then have "length (unmark U) - length (held (unmark U)) = length out" by simp
  moreover have "take (length out) (unmark U) = out"
    using Cons.prems(2) by (metis append_eq_conv_conj)
  ultimately have "take (length (unmark U) - length (held (unmark U))) (unmark U) = out" by simp
  with unmark_carry [OF ok] Cons.prems(3) have carry: "unmark (U @ d) = out @ ?y" by simp
  have 1: "hasSeenFirstThinking ?f'" using Cons.prems(1) by simp
  have 2: "(out @ ?o) @ thinking_buffer ?f' = unmark (U @ d)"
    using carry held_split [of ?y] by simp
  have "held (out @ ?h) = ?h" using Cons.prems(2,3) by simp
  then have "held (out @ ?y) = held ?y" by (rule held_carry) simp
  then have 3: "thinking_buffer ?f' = held (unmark (U @ d))" using carry by simp
  from Cons.IH [OF 1 2 3 oks] show ?case
    by (simp add: thinking_stream_output_Cons pt)
qed

text \<open>
  After a first delta without the marker nothing more is held back: whatever the later
  deltas of the round are, with a marker or without, the stream gives their whole text,
  with the line markers replaced.
\<close>

lemma later_deltas_not_suppressed:
  assumes "\<not> hasSeenFirstThinking f" and "thinking_buffer f = []"
    and "Index d marker = None"
    and "delta_boundaries_ok [] ds"
  shows "thinking_stream_output f (d # ds) = unmark (concat ds)"
proof -
  let ?f1 = "f\<lparr>hasSeenFirstThinking := True\<rparr>"
  have 1: "ProcessThinking f d = ([], ?f1)"
    using assms(1,3) by (simp add: ProcessThinking_def Let_def)
  have h: "held (unmark []) = []"
    by (simp add: held_def HasSuffix_def held_marker_def newline_def)
  have "[] @ thinking_stream_output ?f1 ds = unmark ([] @ concat ds)"
    by (rule thinking_stream_norm) (use assms(2,4) h in simp_all)
  then show ?thesis
    by (simp add: thinking_stream_output_Cons 1)
qed

lemma later_deltas_not_suppressed_example:
  "thinking_stream_output NewThinkingFilter
     [''<details>'', ''<summary>'', ''x</summary>'', line_marker @ ''hello'']
   = ''<summary>x</summary>'' @ newline @ ''hello''"
proof -
  have 1: "\<not> hasSeenFirstThinking NewThinkingFilter"
    and 2: "thinking_buffer NewThinkingFilter = []"
    by (simp_all add: NewThinkingFilter_def)
  have 3: "Index ''<details>'' marker = None"
    by code_simp
  have 4: "delta_boundaries_ok [] [''<summary>'', ''x</summary>'', line_marker @ ''hello'']"
    by code_simp
  have 5: "unmark (concat [''<summary>'', ''x</summary>'', line_marker @ ''hello''])
           = ''<summary>x</summary>'' @ newline @ ''hello''"
    by code_simp
  from later_deltas_not_suppressed [OF 1 2 3 4] show ?thesis
    unfolding 5 .
qed

lemma Index_Some_bound: "Index s sub = Some i \<Longrightarrow> i + length sub \<le> length s"
proof (induction s arbitrary: i)
  case Nil
  then show ?case by (simp split: if_splits)
next
  case (Cons c s)
  show ?case
  proof (cases "HasPrefix (c # s) sub")
    case True
    with Cons.prems have "i = 0" by simp
    moreover from True have "length sub \<le> length (c # s)"
      by (metis HasPrefix_def length_take min.cobounded1)
    ultimately show ?thesis by simp
  next
    case False
    with Cons.prems obtain j where "Index s sub = Some j" "i = Suc j" by auto
    with Cons.IH show ?thesis by auto
  qed
qed

lemma Index_append: "Index a sub = Some i \<Longrightarrow> Index (a @ b) sub = Some i"
proof (induction a arbitrary: i)
  case Nil
  then show ?case by (cases b) (simp_all add: HasPrefix_def split: if_splits)
next
  case (Cons c s)
  show ?case
  proof (cases "HasPrefix (c # s) sub")
    case True
    with Cons.prems have "i = 0" by simp
    moreover have "HasPrefix ((c # s) @ b) sub" using True by (rule HasPrefix_append)
    ultimately show ?thesis by simp
  next
    case False
    with Cons.prems obtain j where j: "Index s sub = Some j" "i = Suc j" by auto
    from Index_Some_bound [OF j(1)] have "length sub \<le> length (c # s)" by simp
    then have "take (length sub) ((c # s) @ b) = take (length sub) (c # s)"
      by (simp del: append_Cons)
    with False have "\<not> HasPrefix ((c # s) @ b) sub"
      by (simp only: HasPrefix_def) simp
    with j Cons.IH show ?thesis by simp
  qed
qed


text \<open>
  C2. \<open>ProcessThinking\<close> keeps pending the newline that it has made of a complete line
  marker and scans it again in front of the next delta, so what the stream gives depends
  on where the deltas are cut. The reasoning text whose second line is itself quoted
  gives \<open>a\<close>, newline, \<open>> b\<close> as one delta, which is what \<open>ExtractCompleteThinking\<close> gives
  for the snapshot of the same text; cut into two deltas after the line marker, it gives
  \<open>a\<close>, newline, \<open>b\<close>: the quote mark of the second line is lost.
\<close>

theorem thinking_stream_cut_after_line_marker:
  "thinking_stream_output NewThinkingFilter [''> a'' @ line_marker @ ''> b'']
     = ''a'' @ newline @ ''> b''
   \<and> thinking_stream_output NewThinkingFilter [''> a'' @ line_marker, ''> b'']
     = ''a'' @ newline @ ''b''
   \<and> ExtractCompleteThinking (''> a'' @ line_marker @ ''> b'' @ closing_tag)
     = Inr (''a'' @ newline @ ''> b'')"
  by code_simp

text \<open>
  Where the two modes do agree: for a new filter and a stream of thinking deltas whose
  first delta contains the marker, in which no delta boundary falls inside a nested
  marker, and whose text is closed by the first closing tag of the snapshot, the
  fragments returned by \<open>ProcessThinking\<close> followed by the result of \<open>Flush\<close> are,
  concatenated, what \<open>ExtractCompleteThinking\<close> returns for the snapshot, the streamed
  text followed by the closing tag and anything after it.
\<close>

lemma thinking_modes_agree:
  assumes "\<not> hasSeenFirstThinking f" and "thinking_buffer f = []"
    and "Index d marker = Some idx"
    and "delta_boundaries_ok [] (drop (idx + 2) d # ds)"
    and "Index (concat (d # ds) @ closing_tag @ rest) closing_tag = Some (length (concat (d # ds)))"
  shows "ExtractCompleteThinking (concat (d # ds) @ closing_tag @ rest)
         = Inr (thinking_stream_output f (d # ds))"
proof -
  let ?f1 = "f\<lparr>hasSeenFirstThinking := True\<rparr>"
  let ?s0 = "drop (idx + 2) d"
  let ?T = "concat (d # ds)"
  have "ProcessThinking f d = ProcessThinking_content ?f1 ?s0"
    using assms(1,3) by (simp add: ProcessThinking_def Let_def)
  moreover have "ProcessThinking ?f1 ?s0 = ProcessThinking_content ?f1 ?s0"
    by (simp add: ProcessThinking_def)
  ultimately have "thinking_stream_output f (d # ds) = thinking_stream_output ?f1 (?s0 # ds)"
    by (simp add: thinking_stream_output_Cons)
  moreover have "[] @ thinking_stream_output ?f1 (?s0 # ds) = unmark ([] @ concat (?s0 # ds))"
    by (rule thinking_stream_norm) (use assms(2,4) in simp_all)
  ultimately have stream: "thinking_stream_output f (d # ds) = unmark (?s0 @ concat ds)"
    by simp
  have le: "idx + 2 \<le> length d"
    using Index_Some_bound [OF assms(3)] by (simp add: marker_def)
  have start: "Index (?T @ closing_tag @ rest) marker = Some idx"
    using Index_append [OF assms(3), of "concat ds @ closing_tag @ rest"] by simp
  have "drop (idx + 2) (?T @ closing_tag @ rest) = (?s0 @ concat ds) @ closing_tag @ rest"
    using le by simp
  moreover have "length ?T - (idx + 2) = length (?s0 @ concat ds)"
    using le by simp
  ultimately have body: "take (length ?T - (idx + 2)) (drop (idx + 2) (?T @ closing_tag @ rest))
                   = ?s0 @ concat ds"
    by (metis append_eq_conv_conj)
  have "\<not> length ?T < idx + 2" using le by simp
  then show ?thesis
    unfolding ExtractCompleteThinking_def start assms(5)
    by (simp only: option.case Let_def if_False body stream unmark_def) 
qed


lemma thinking_modes_agree_example:
  "\<not> hasSeenFirstThinking NewThinkingFilter \<and> thinking_buffer NewThinkingFilter = []
   \<and> Index (''<summary>x</summary>'' @ line_marker @ ''a'' @ line_marker) marker = Some 21
   \<and> delta_boundaries_ok []
        [drop (21 + 2) (''<summary>x</summary>'' @ line_marker @ ''a'' @ line_marker),
         ''b'' @ newline, ''> c'']
   \<and> ExtractCompleteThinking
        (concat [''<summary>x</summary>'' @ line_marker @ ''a'' @ line_marker, ''b'' @ newline, ''> c'']
         @ closing_tag @ newline @ ''answer'')
     = Inr (thinking_stream_output NewThinkingFilter
         [''<summary>x</summary>'' @ line_marker @ ''a'' @ line_marker, ''b'' @ newline, ''> c''])
   \<and> thinking_stream_output NewThinkingFilter
         [''<summary>x</summary>'' @ line_marker @ ''a'' @ line_marker, ''b'' @ newline, ''> c'']
     = ''a'' @ newline @ ''b'' @ newline @ ''c''"
proof -
  let ?d = "''<summary>x</summary>'' @ line_marker @ ''a'' @ line_marker"
  let ?ds = "[''b'' @ newline, ''> c'']"
  have 1: "\<not> hasSeenFirstThinking NewThinkingFilter"
    and 2: "thinking_buffer NewThinkingFilter = []"
    by (simp_all add: NewThinkingFilter_def)
  have 3: "Index ?d marker = Some 21"
    by code_simp
  have 4: "delta_boundaries_ok [] (drop (21 + 2) ?d # ?ds)"
    by code_simp
  have 5: "Index (concat (?d # ?ds) @ closing_tag @ newline @ ''answer'') closing_tag
           = Some (length (concat (?d # ?ds)))"
    by code_simp
  have 6: "thinking_stream_output NewThinkingFilter (?d # ?ds)
           = ''a'' @ newline @ ''b'' @ newline @ ''c''"
    by code_simp
  from thinking_modes_agree [OF 1 2 3 4 5] 1 2 3 4 6 show ?thesis
    by blast
qed


section \<open>Brackets inside the strings of a search-result block\<close>

text \<open>
  C3. The scan of \<open>ParseSearchResults\<close> counts every bracket, also one inside a quoted
  title: on a block whose title holds a closing bracket it stops at that bracket and
  isolates a text that is no JSON array, so no record is decoded. The scan of
  \<open>ParseImageSearchResults\<close>, which follows the quotes, isolates the whole array of the
  same text under its own key.
\<close>

theorem search_result_bracket_in_title:
  \<open>search_result_json
     ''{"search_result": [{"title":"a]b","url":"u","index":1,"ref_id":"r"}]}''
     = Some ''[{"title":"a]''
   \<and> image_result_json
       ''{"result": [{"title":"a]b","url":"u","index":1,"ref_id":"r"}]}''
     = Some ''[{"title":"a]b","url":"u","index":1,"ref_id":"r"}]''\<close>
  by code_simp


section \<open>The OpenAI stream of one answer delta\<close>

lemma Flush_empty_buffer: "buffer f = [] \<Longrightarrow> fst (Flush f) = []"
  by (simp add: Flush_def Let_def)

lemma Process_Hi:
  "fst (Process NewSearchRefFilter ''Hi'') = ''Hi''"
  "buffer (snd (Process NewSearchRefFilter ''Hi'')) = []"
  by code_simp+


text \<open>
  C8. When the upstream sends a line that decodes to the event with phase \<open>answer\<close> and
  delta content \<open>Hi\<close>, then a line that decodes to an event with phase \<open>done\<close>, the
  OpenAI streaming handler writes one chunk whose delta content is \<open>Hi\<close>, with no
  reasoning content and no finish reason, one chunk with an empty delta and finish reason
  \<open>stop\<close>, and the terminator line, in that order and nothing else. Both chunks carry
  the identifier and the model name of the response, the object type
  \<open>chat.completion.chunk\<close> and one choice, of index 0.
\<close>

theorem openai_stream_answer_done:
  assumes "Unmarshal_upstream env p1
           = Some \<lparr>DeltaContent = ''Hi'', EditContent = [], Phase = ''answer''\<rparr>"
    and "Unmarshal_upstream env p2 = Some u2" and "Phase u2 = ''done''"
    and "p1 \<noteq> ''[DONE]''"
  shows "handleStreamResponse env completionID modelName [''data: '' @ p1, ''data: '' @ p2]
         = ([Data \<lparr>ID = completionID, Object = ''chat.completion.chunk'', Model = modelName,
                   Choices = [\<lparr>ChoiceIndex = 0,
                              ChoiceDelta = \<lparr>Content = ''Hi'', ReasoningContent = []\<rparr>,
                              FinishReason = None\<rparr>]\<rparr>,
             Data \<lparr>ID = completionID, Object = ''chat.completion.chunk'', Model = modelName,
                   Choices = [\<lparr>ChoiceIndex = 0,
                              ChoiceDelta = \<lparr>Content = [], ReasoningContent = []\<rparr>,
                              FinishReason = Some ''stop''\<rparr>]\<rparr>,
             Done_terminator], None)"
proof -
  let ?u1 = "\<lparr>DeltaContent = ''Hi'', EditContent = [], Phase = ''answer''\<rparr>"
  have ev: "upstream_events env [''data: '' @ p1, ''data: '' @ p2]
            = ?u1 # (if p2 = ''[DONE]'' then [] else [u2])"
    using assms by (simp add: HasPrefix_def TrimPrefix_def)
  obtain out srf where pr: "Process NewSearchRefFilter ''Hi'' = (out, srf)"
    by (cases "Process NewSearchRefFilter ''Hi''")
  with Process_Hi have out: "out = ''Hi''" and srf: "buffer srf = []" by simp_all
  have ged: "GetEditContent env ?u1 = []"
    by (simp add: GetEditContent_def)
  have lp: "stream_init\<lparr>thinkingFilter := (thinkingFilter stream_init)\<lparr>lastPhase := ''answer''\<rparr>\<rparr>
            = stream_init\<lparr>thinkingFilter := NewThinkingFilter\<lparr>lastPhase := ''answer''\<rparr>\<rparr>"
    by (simp add: stream_init_def)
  let ?st1 = "stream_init\<lparr>thinkingFilter := NewThinkingFilter\<lparr>lastPhase := ''answer''\<rparr>\<rparr>"
  let ?st2 = "?st1\<lparr>searchRefFilter := srf, hasContent := True,
                     totalContentOutputLength := RuneCount ''Hi''\<rparr>"
  have pend: "stream_pending completionID modelName ?st1 = ([], ?st1)"
    by (simp add: stream_pending_def stream_init_def ThinkingFilter_Flush_def NewThinkingFilter_def)
  have sel: "stream_select ?st1 ?u1 [] = Inr (''Hi'', [], ?st1)"
    by (simp add: stream_select_def)
  have cont: "stream_content completionID modelName ?st1 ?u1 []
              = ([content_chunk completionID modelName ''Hi''], Inr ?st2)"
    unfolding stream_content_def sel
    using pr out by (simp add: stream_init_def)
  have step: "stream_step env completionID modelName stream_init ?u1
              = ([content_chunk completionID modelName ''Hi''], Inr ?st2)"
    by (simp add: stream_step_def ged lp pend cont)
  have loop: "stream_loop env completionID modelName (upstream_events env [''data: '' @ p1, ''data: '' @ p2]) stream_init
              = ([content_chunk completionID modelName ''Hi''], Inr ?st2)"
    unfolding ev using assms(3) by (simp add: step)
  have fl: "Flush srf = ([], srf\<lparr>buffer := []\<rparr>)"
    using srf by (simp add: Flush_def Let_def)
  show ?thesis
    unfolding handleStreamResponse_def loop
    by (simp add: fl content_chunk_def final_chunk_def delta_chunk_def)
qed


theorem openai_stream_answer_done_witness:
  \<open>handleStreamResponse
     (decode_table
        [(''{"data":{"phase":"answer","delta_content":"Hi"}}'',
          \<lparr>DeltaContent = ''Hi'', EditContent = [], Phase = ''answer''\<rparr>),
         (''{"data":{"phase":"done"}}'',
          \<lparr>DeltaContent = [], EditContent = [], Phase = ''done''\<rparr>)])
     ''chatcmpl-1'' ''GLM-4-6-API-V1''
     [''data: '' @ ''{"data":{"phase":"answer","delta_content":"Hi"}}'',
      ''data: '' @ ''{"data":{"phase":"done"}}'']
   = ([Data \<lparr>ID = ''chatcmpl-1'', Object = ''chat.completion.chunk'',
             Model = ''GLM-4-6-API-V1'',
             Choices = [\<lparr>ChoiceIndex = 0,
                        ChoiceDelta = \<lparr>Content = ''Hi'', ReasoningContent = []\<rparr>,
                        FinishReason = None\<rparr>]\<rparr>,
       Data \<lparr>ID = ''chatcmpl-1'', Object = ''chat.completion.chunk'',
             Model = ''GLM-4-6-API-V1'',
             Choices = [\<lparr>ChoiceIndex = 0,
                        ChoiceDelta = \<lparr>Content = [], ReasoningContent = []\<rparr>,
                        FinishReason = Some ''stop''\<rparr>]\<rparr>,
       Done_terminator], None)\<close>
proof (rule openai_stream_answer_done)
  show \<open>Unmarshal_upstream
     (decode_table
        [(''{"data":{"phase":"answer","delta_content":"Hi"}}'',
          \<lparr>DeltaContent = ''Hi'', EditContent = [], Phase = ''answer''\<rparr>),
         (''{"data":{"phase":"done"}}'',
          \<lparr>DeltaContent = [], EditContent = [], Phase = ''done''\<rparr>)])
     ''{"data":{"phase":"answer","delta_content":"Hi"}}''
     = Some \<lparr>DeltaContent = ''Hi'', EditContent = [], Phase = ''answer''\<rparr>\<close>
    by (simp add: decode_table_def)
  show \<open>Unmarshal_upstream
     (decode_table
        [(''{"data":{"phase":"answer","delta_content":"Hi"}}'',
          \<lparr>DeltaContent = ''Hi'', EditContent = [], Phase = ''answer''\<rparr>),
         (''{"data":{"phase":"done"}}'',
          \<lparr>DeltaContent = [], EditContent = [], Phase = ''done''\<rparr>)])
     ''{"data":{"phase":"done"}}''
     = Some \<lparr>DeltaContent = [], EditContent = [], Phase = ''done''\<rparr>\<close>
    by (simp add: decode_table_def)
  show "Phase \<lparr>DeltaContent = [], EditContent = [], Phase = ''done''\<rparr> = ''done''"
    by simp
  show \<open>''{"data":{"phase":"answer","delta_content":"Hi"}}'' \<noteq> ''[DONE]''\<close>
    by simp
qed


section \<open>Snapshots of the phases other and tool_call\<close>

text \<open>
  In the OpenAI streaming handler the snapshots \<open>ab\<close>, \<open>abc\<close>, \<open>abcde\<close> are written as
  \<open>ab\<close>, \<open>c\<close>, \<open>de\<close>.
\<close>

lemma openai_snapshots_diffed:
  \<open>handleStreamResponse
     (decode_table
        [(''1'', \<lparr>DeltaContent = [], EditContent = ''ab'', Phase = ''other''\<rparr>),
         (''2'', \<lparr>DeltaContent = [], EditContent = ''abc'', Phase = ''other''\<rparr>),
         (''3'', \<lparr>DeltaContent = [], EditContent = ''abcde'', Phase = ''other''\<rparr>)])
     ''id'' ''m'' [''data: 1'', ''data: 2'', ''data: 3'']
   = ([content_chunk ''id'' ''m'' ''ab'', content_chunk ''id'' ''m'' ''c'',
       content_chunk ''id'' ''m'' ''de'', final_chunk ''id'' ''m'', Done_terminator], None)\<close>
  by code_simp


text \<open>
  C7. The Claude streaming handler has no count of what it has written: it writes each
  of the snapshots \<open>ab\<close>, \<open>abc\<close>, \<open>abcde\<close> whole, where the claim has \<open>ab\<close>, \<open>c\<close>,
  \<open>de\<close>.
\<close>

theorem claude_snapshots_verbatim:
  \<open>handleClaudeStreamResponse
     (decode_table
        [(''1'', \<lparr>DeltaContent = [], EditContent = ''ab'', Phase = ''other''\<rparr>),
         (''2'', \<lparr>DeltaContent = [], EditContent = ''abc'', Phase = ''other''\<rparr>),
         (''3'', \<lparr>DeltaContent = [], EditContent = ''abcde'', Phase = ''other''\<rparr>)])
     ''id'' ''m'' [''data: 1'', ''data: 2'', ''data: 3'']
   = ([message_start ''id'' ''m'', content_block_start 0,
       content_block_delta 0 ''ab'', content_block_delta 0 ''abc'',
       content_block_delta 0 ''abcde'',
       content_block_stop 0, message_delta ''end_turn'', message_stop], None)\<close>
  by code_simp


section \<open>The single text block of the Claude stream\<close>

lemma HasPrefix_appendD: "HasPrefix s (t @ x) \<Longrightarrow> HasPrefix s t"
proof -
  assume "HasPrefix s (t @ x)"
  then have "take (length t + length x) s = t @ x"
    by (simp add: HasPrefix_def)
  then have "take (length t) (take (length t + length x) s) = t"
    by simp
  then show ?thesis
    by (simp add: HasPrefix_def min_def)
qed

lemma Index_append_None: "Index s t = None \<Longrightarrow> Index s (t @ x) = None"
proof (induction s)
  case Nil
  then show ?case by (simp split: if_splits)
next
  case (Cons c s)
  from Cons.prems have np: "\<not> HasPrefix (c # s) t" and tl: "Index s t = None"
    by (simp_all split: if_splits)
  from np HasPrefix_appendD [of "c # s" t x] have "\<not> HasPrefix (c # s) (t @ x)"
    by blast
  with Cons.IH [OF tl] show ?case by simp
qed

lemma claude_select_text:
  assumes "claude_select u = Inr c"
  shows "c = claude_event_text u"
proof -
  have none: "\<not> Contains (EditContent u) ''</details>''
              \<Longrightarrow> text_after (EditContent u) (''</details>'' @ [CHR 0x0A]) = []"
    using Index_append_None [of "EditContent u" "''</details>''" "[CHR 0x0A]"]
    by (simp add: Contains_def text_after_def)
  have empty: "EditContent u = [] \<Longrightarrow> text_after (EditContent u) (''</details>'' @ [CHR 0x0A]) = []"
    by (simp add: text_after_def)
  show ?thesis
  proof (cases "Phase u = ''answer''")
    case answer: True
    show ?thesis
    proof (cases "DeltaContent u = []")
      case False
      with answer assms show ?thesis
        by (simp add: claude_select_def claude_event_text_def)
    next
      case True
      show ?thesis
      proof (cases "EditContent u = []")
        case True
        with answer \<open>DeltaContent u = []\<close> assms empty show ?thesis
          by (simp add: claude_select_def claude_event_text_def)
      next
        case edit: False
        show ?thesis
        proof (cases "Contains (EditContent u) ''</details>''")
          case False
          with answer \<open>DeltaContent u = []\<close> edit assms none show ?thesis
            by (simp add: claude_select_def claude_event_text_def)
        next
          case True
          with answer \<open>DeltaContent u = []\<close> edit assms show ?thesis
            by (auto simp add: claude_select_def claude_event_text_def text_after_def
                split: sum.splits option.splits)
        qed
      qed
    qed
  next
    case False
    with assms show ?thesis
      by (auto simp add: claude_select_def claude_event_text_def split: if_splits)
  qed
qed

lemma upstream_events_data:
  assumes "map (Unmarshal_upstream env) payloads = map Some us"
    and "''[DONE]'' \<notin> set payloads"
  shows "upstream_events env (map ((@) ''data: '') payloads) = us"
  using assms
proof (induction payloads arbitrary: us)
  case Nil
  then show ?case by simp
next
  case (Cons p ps)
  from Cons.prems(1) obtain u us' where us: "us = u # us'"
    and u: "Unmarshal_upstream env p = Some u"
    and tl: "map (Unmarshal_upstream env) ps = map Some us'"
    by (cases us) auto
  from Cons.prems(2) have nd: "p \<noteq> ''[DONE]''" and nds: "''[DONE]'' \<notin> set ps"
    by auto
  have pre: "HasPrefix (''data: '' @ p) ''data: ''"
    and trim: "TrimPrefix (''data: '' @ p) ''data: '' = p"
    by (simp_all add: HasPrefix_def TrimPrefix_def)
  from Cons.IH [OF tl nds] us u nd pre trim show ?case
    by (simp del: append.simps)
qed

lemma claude_content_Inl:
  "claude_select u = Inl e \<Longrightarrow> snd (claude_content st u) = Inl e"
  by (simp add: claude_content_def split: prod.splits)

lemma claude_content_Inr:
  assumes "claude_select u = Inr c"
  shows "claude_content st u
         = ((if c_pendingSourcesMarkdown st \<noteq> []
             then [content_block_delta 0 (c_pendingSourcesMarkdown st)] else [])
            @ (if c \<noteq> [] \<and> fst (Process (c_searchRefFilter st) c) \<noteq> []
               then [content_block_delta 0 (fst (Process (c_searchRefFilter st) c))] else []),
            Inr (st\<lparr>c_pendingSourcesMarkdown := [],
                    c_searchRefFilter :=
                      (if c = [] then c_searchRefFilter st
                       else snd (Process (c_searchRefFilter st) c))\<rparr>))"
proof (cases "c_pendingSourcesMarkdown st = []")
  case True
  then have "st\<lparr>c_pendingSourcesMarkdown := []\<rparr> = st" by simp
  with True assms show ?thesis
    by (simp add: claude_content_def split: prod.splits)
next
  case False
  with assms show ?thesis
    by (simp add: claude_content_def split: prod.splits)
qed

text \<open>
  The loop from any state: what it writes, followed by the delta of the last flush, is
  one delta for each non-empty fragment, in order.
\<close>

lemma claude_loop_fragments:
  assumes "claude_loop env us st = (w, Inr st')"
    and "no_thinking_over_bibliography env pending us"
    and "c_pendingSourcesMarkdown st \<noteq> [] \<Longrightarrow> pending"
  shows "w @ (if fst (Flush (c_searchRefFilter st')) \<noteq> []
              then [content_block_delta 0 (fst (Flush (c_searchRefFilter st')))] else [])
         = map (content_block_delta 0)
             (filter (\<lambda>t. t \<noteq> [])
                (claude_text_fragments env (c_searchRefFilter st) (c_pendingSourcesMarkdown st) us))"
  using assms
proof (induction us arbitrary: st w pending)
  case Nil
  then show ?case by auto
next
  case (Cons u us)
  show ?case
  proof (cases "Phase u = ''done''")
    case True
    with Cons.prems(1) show ?thesis by auto
  next
    case nd: False
    obtain w1 r where step: "claude_step env st u = (w1, r)"
      by (cases "claude_step env st u")
    from Cons.prems(1) nd step obtain st1 where r: "r = Inr st1"
      by (cases r) auto
    obtain w2 r2 where rest: "claude_loop env us st1 = (w2, r2)"
      by (cases "claude_loop env us st1")
    from Cons.prems(1) nd step r rest have w: "w = w1 @ w2" and r2: "r2 = Inr st'"
      by simp_all
    note loop = rest [unfolded r2]
    let ?tail = "if fst (Flush (c_searchRefFilter st')) \<noteq> []
              then [content_block_delta 0 (fst (Flush (c_searchRefFilter st')))] else []"
    consider (thinking) "Phase u = ''thinking''" "DeltaContent u \<noteq> []"
      | (results) "\<not> (Phase u = ''thinking'' \<and> DeltaContent u \<noteq> [])"
          "EditContent u \<noteq> []" "IsSearchResultContent (EditContent u)"
      | (tool) "\<not> (Phase u = ''thinking'' \<and> DeltaContent u \<noteq> [])"
          "\<not> (EditContent u \<noteq> [] \<and> IsSearchResultContent (EditContent u))"
          "EditContent u \<noteq> []" "IsSearchToolCall (EditContent u) (Phase u)"
      | (content) "\<not> (Phase u = ''thinking'' \<and> DeltaContent u \<noteq> [])"
          "\<not> (EditContent u \<noteq> [] \<and> IsSearchResultContent (EditContent u))"
          "\<not> (EditContent u \<noteq> [] \<and> IsSearchToolCall (EditContent u) (Phase u))"
      by blast
    then show ?thesis
    proof cases
      case thinking
      from Cons.prems(2) nd thinking have np: "\<not> pending"
        and tl: "no_thinking_over_bibliography env pending us" by auto
      from np Cons.prems(3) have p: "c_pendingSourcesMarkdown st = []" by blast
      from step r thinking p have w1: "w1 = []"
        and st1: "c_searchRefFilter st1 = c_searchRefFilter st"
          "c_pendingSourcesMarkdown st1 = []"
        by (auto simp add: claude_step_def split: prod.splits)
      from Cons.IH [OF loop tl] st1 np
      have "w2 @ ?tail = map (content_block_delta 0)
             (filter (\<lambda>t. t \<noteq> [])
                (claude_text_fragments env (c_searchRefFilter st) [] us))"
        by simp
      with w w1 nd thinking p show ?thesis by auto
    next
      case results
      show ?thesis
      proof (cases "ParseSearchResults env (EditContent u) = []")
        case True
        from Cons.prems(2) nd results True
        have tl: "no_thinking_over_bibliography env pending us" by simp
        from step r results True have w1: "w1 = []" and st1: "st1 = st"
          by (auto simp add: claude_step_def Let_def)
        from Cons.IH [OF loop tl] st1 Cons.prems(3)
        have "w2 @ ?tail = map (content_block_delta 0)
             (filter (\<lambda>t. t \<noteq> [])
                (claude_text_fragments env (c_searchRefFilter st) (c_pendingSourcesMarkdown st) us))"
          by simp
        with w w1 nd results True show ?thesis by auto
      next
        case False
        let ?srf = "AddSearchResults (c_searchRefFilter st) (ParseSearchResults env (EditContent u))"
        from Cons.prems(2) nd results False
        have tl: "no_thinking_over_bibliography env True us" by simp
        from step r results False have w1: "w1 = []"
          and st1: "c_searchRefFilter st1 = ?srf"
            "c_pendingSourcesMarkdown st1 = GetSearchResultsMarkdown env ?srf"
          by (auto simp add: claude_step_def Let_def)
        from Cons.IH [OF loop tl] st1
        have "w2 @ ?tail = map (content_block_delta 0)
             (filter (\<lambda>t. t \<noteq> [])
                (claude_text_fragments env ?srf (GetSearchResultsMarkdown env ?srf) us))"
          by simp
        with w w1 nd results False show ?thesis by auto
      qed
    next
      case tool
      from Cons.prems(2) nd tool
      have tl: "no_thinking_over_bibliography env pending us" by simp
      from step r tool have w1: "w1 = []" and st1: "st1 = st"
        by (auto simp add: claude_step_def Let_def)
      from Cons.IH [OF loop tl] st1 Cons.prems(3)
      have "w2 @ ?tail = map (content_block_delta 0)
           (filter (\<lambda>t. t \<noteq> [])
              (claude_text_fragments env (c_searchRefFilter st) (c_pendingSourcesMarkdown st) us))"
        by simp
      with w w1 nd tool show ?thesis by auto
    next
      case content
      from Cons.prems(2) nd content
      have tl: "no_thinking_over_bibliography env False us" by simp
      from content have sc: "claude_step env st u = claude_content st u"
        by (auto simp add: claude_step_def)
      obtain c where sel: "claude_select u = Inr c"
        using claude_content_Inl [of u _ st] step r sc by (cases "claude_select u") auto
      let ?srf = "if c = [] then c_searchRefFilter st
                  else snd (Process (c_searchRefFilter st) c)"
      from claude_content_Inr [OF sel, of st] step r sc
      have w1: "w1 = (if c_pendingSourcesMarkdown st \<noteq> []
             then [content_block_delta 0 (c_pendingSourcesMarkdown st)] else [])
            @ (if c \<noteq> [] \<and> fst (Process (c_searchRefFilter st) c) \<noteq> []
               then [content_block_delta 0 (fst (Process (c_searchRefFilter st) c))] else [])"
        and st1: "c_searchRefFilter st1 = ?srf" "c_pendingSourcesMarkdown st1 = []"
        by auto
      from Cons.IH [OF loop tl] st1
      have "w2 @ ?tail = map (content_block_delta 0)
           (filter (\<lambda>t. t \<noteq> []) (claude_text_fragments env ?srf [] us))"
        by simp
      with w w1 nd content claude_select_text [OF sel] show ?thesis by auto
    qed
  qed
qed


text \<open>
  C5, as stated, fails. A thinking delta whose filtered text is \<open>hello\<close> leaves no
  \<open>content_block_delta\<close> in the Claude stream: the handler calls \<open>ProcessThinking\<close> and
  drops what it returns.
\<close>

theorem claude_thinking_counterexample:
  \<open>fst (ProcessThinking NewThinkingFilter ''> hello'') = ''hello''
   \<and> handleClaudeStreamResponse
       (decode_table
          [(''1'', \<lparr>DeltaContent = ''> hello'', EditContent = [], Phase = ''thinking''\<rparr>)])
       ''id'' ''m'' [''data: 1'']
     = ([message_start ''id'' ''m'', content_block_start 0,
         content_block_stop 0, message_delta ''end_turn'', message_stop], None)\<close>
  by code_simp

text \<open>
  C5, amended. In Claude streaming mode the filtered text of a thinking-phase delta is
  not written. All other text is merged into the single text block at index 0: for a
  response whose lines are data lines that decode to the events \<open>us\<close>, when the handler
  reaches the end of the response and no thinking delta arrives while a bibliography is
  pending, what it writes is \<open>message_start\<close>, \<open>content_block_start\<close> of index 0, then
  one \<open>content_block_delta\<close> of index 0 for every non-empty text fragment, in order,
  then \<open>content_block_stop\<close>, \<open>message_delta\<close> and \<open>message_stop\<close>. The fragments are,
  for every event that is no thinking delta, no search-result block and no search tool
  call, the pending bibliography and the text of the event through the citation filter
  (the delta of an answer delta, the text after the closing tag of an answer snapshot, a
  snapshot of the phase \<open>other\<close> or \<open>tool_call\<close>), and at the end what the citation
  filter still holds.
\<close>

theorem claude_stream_text_fragments:
  assumes "map (Unmarshal_upstream env) payloads = map Some us"
    and "''[DONE]'' \<notin> set payloads"
    and "no_thinking_over_bibliography env False us"
    and "snd (handleClaudeStreamResponse env completionID model
                (map ((@) ''data: '') payloads)) = None"
  shows "fst (handleClaudeStreamResponse env completionID model
                (map ((@) ''data: '') payloads))
         = [message_start completionID model, content_block_start 0]
           @ map (content_block_delta 0)
               (filter (\<lambda>t. t \<noteq> []) (claude_text_fragments env NewSearchRefFilter [] us))
           @ [content_block_stop 0, message_delta ''end_turn'', message_stop]"
proof -
  let ?lines = "map ((@) ''data: '') payloads"
  have ev: "upstream_events env ?lines = us"
    using assms(1,2) by (rule upstream_events_data)
  obtain w r where loop: "claude_loop env us claude_init = (w, r)"
    by (cases "claude_loop env us claude_init")
  from assms(4) loop obtain st where r: "r = Inr st"
    unfolding handleClaudeStreamResponse_def ev by (cases r) auto
  have i: "c_searchRefFilter claude_init = NewSearchRefFilter"
    "c_pendingSourcesMarkdown claude_init = []"
    by (simp_all add: claude_init_def)
  obtain remaining srf where fl: "Flush (c_searchRefFilter st) = (remaining, srf)"
    by (cases "Flush (c_searchRefFilter st)")
  then have flr: "fst (Flush (c_searchRefFilter st)) = remaining"
    by simp
  from claude_loop_fragments [OF loop [unfolded r] assms(3)] i
  have "w @ (if fst (Flush (c_searchRefFilter st)) \<noteq> []
             then [content_block_delta 0 (fst (Flush (c_searchRefFilter st)))] else [])
         = map (content_block_delta 0)
             (filter (\<lambda>t. t \<noteq> []) (claude_text_fragments env NewSearchRefFilter [] us))"
    by simp
  then have "w @ (if remaining \<noteq> [] then [content_block_delta 0 remaining] else [])
         = map (content_block_delta 0)
             (filter (\<lambda>t. t \<noteq> []) (claude_text_fragments env NewSearchRefFilter [] us))"
    unfolding flr .
  then show ?thesis
    unfolding handleClaudeStreamResponse_def ev
    using loop r fl by simp
qed

theorem claude_stream_text_fragments_witness:
  \<open>handleClaudeStreamResponse
       (decode_tables
          [(''1'', \<lparr>DeltaContent = ''> hmm'', EditContent = [], Phase = ''thinking''\<rparr>),
           (''2'', \<lparr>DeltaContent = [],
                    EditContent = ''{"search_result": [{"title":"T","url":"http://u","index":1,"ref_id":"turn0search0"}]}'',
                    Phase = ''tool_call''\<rparr>),
           (''3'', \<lparr>DeltaContent = ''See '' @ lbracket @ ''turn0search0'' @ rbracket @ ''.'',
                    EditContent = [], Phase = ''answer''\<rparr>),
           (''4'', \<lparr>DeltaContent = [], EditContent = ''ab'', Phase = ''other''\<rparr>),
           (''5'', \<lparr>DeltaContent = [],
                    EditContent = ''<details>'' @ line_marker @ ''hmm'' @ closing_tag @ newline @ ''cd'',
                    Phase = ''answer''\<rparr>),
           (''6'', \<lparr>DeltaContent = [], EditContent = [], Phase = ''done''\<rparr>)]
          [(''[{"title":"T","url":"http://u","index":1,"ref_id":"turn0search0"}]'',
            [\<lparr>Title = ''T'', URL = ''http://u'', Index_of = 1, RefID = ''turn0search0''\<rparr>])])
       ''id'' ''m'' [''data: 1'', ''data: 2'', ''data: 3'', ''data: 4'', ''data: 5'', ''data: 6'']
     = ([message_start ''id'' ''m'', content_block_start 0,
       content_block_delta 0
         (''['' @ [CHR 0x5C] @ ''[1'' @ [CHR 0x5C] @ ''] T](http://u)'' @ [CHR 0x0A, CHR 0x0A]),
       content_block_delta 0
         (''See ['' @ [CHR 0x5C] @ ''[1'' @ [CHR 0x5C] @ '']](http://u).''),
       content_block_delta 0 ''ab'', content_block_delta 0 ''cd'',
       content_block_stop 0, message_delta ''end_turn'', message_stop], None)\<close>
proof -
  let ?env = \<open>(decode_tables
          [(''1'', \<lparr>DeltaContent = ''> hmm'', EditContent = [], Phase = ''thinking''\<rparr>),
           (''2'', \<lparr>DeltaContent = [],
                    EditContent = ''{"search_result": [{"title":"T","url":"http://u","index":1,"ref_id":"turn0search0"}]}'',
                    Phase = ''tool_call''\<rparr>),
           (''3'', \<lparr>DeltaContent = ''See '' @ lbracket @ ''turn0search0'' @ rbracket @ ''.'',
                    EditContent = [], Phase = ''answer''\<rparr>),
           (''4'', \<lparr>DeltaContent = [], EditContent = ''ab'', Phase = ''other''\<rparr>),
           (''5'', \<lparr>DeltaContent = [],
                    EditContent = ''<details>'' @ line_marker @ ''hmm'' @ closing_tag @ newline @ ''cd'',
                    Phase = ''answer''\<rparr>),
           (''6'', \<lparr>DeltaContent = [], EditContent = [], Phase = ''done''\<rparr>)]
          [(''[{"title":"T","url":"http://u","index":1,"ref_id":"turn0search0"}]'',
            [\<lparr>Title = ''T'', URL = ''http://u'', Index_of = 1, RefID = ''turn0search0''\<rparr>])])\<close>
  let ?payloads = "[''1'', ''2'', ''3'', ''4'', ''5'', ''6'']"
  let ?us = \<open>[\<lparr>DeltaContent = ''> hmm'', EditContent = [], Phase = ''thinking''\<rparr>,
       \<lparr>DeltaContent = [],
         EditContent = ''{"search_result": [{"title":"T","url":"http://u","index":1,"ref_id":"turn0search0"}]}'',
         Phase = ''tool_call''\<rparr>,
       \<lparr>DeltaContent = ''See '' @ lbracket @ ''turn0search0'' @ rbracket @ ''.'',
         EditContent = [], Phase = ''answer''\<rparr>,
       \<lparr>DeltaContent = [], EditContent = ''ab'', Phase = ''other''\<rparr>,
       \<lparr>DeltaContent = [],
         EditContent = ''<details>'' @ line_marker @ ''hmm'' @ closing_tag @ newline @ ''cd'',
         Phase = ''answer''\<rparr>,
       \<lparr>DeltaContent = [], EditContent = [], Phase = ''done''\<rparr>]\<close>
  have l: "map ((@) ''data: '') ?payloads = [''data: 1'', ''data: 2'', ''data: 3'', ''data: 4'', ''data: 5'', ''data: 6'']"
    by simp
  have 1: "map (Unmarshal_upstream ?env) ?payloads = map Some ?us"
    by (simp add: decode_tables_def)
  have 2: "''[DONE]'' \<notin> set ?payloads"
    by simp
  have 3: "no_thinking_over_bibliography ?env False ?us"
    by code_simp
  have 4: "snd (handleClaudeStreamResponse ?env ''id'' ''m'' (map ((@) ''data: '') ?payloads)) = None"
    unfolding l by code_simp
  have 5: "map (content_block_delta 0)
             (filter (\<lambda>t. t \<noteq> []) (claude_text_fragments ?env NewSearchRefFilter [] ?us))
           = [content_block_delta 0
         (''['' @ [CHR 0x5C] @ ''[1'' @ [CHR 0x5C] @ ''] T](http://u)'' @ [CHR 0x0A, CHR 0x0A]),
       content_block_delta 0
         (''See ['' @ [CHR 0x5C] @ ''[1'' @ [CHR 0x5C] @ '']](http://u).''),
       content_block_delta 0 ''ab'', content_block_delta 0 ''cd'']"
    by code_simp
  have "fst (handleClaudeStreamResponse ?env ''id'' ''m'' [''data: 1'', ''data: 2'', ''data: 3'', ''data: 4'', ''data: 5'', ''data: 6''])
     = [message_start ''id'' ''m'', content_block_start 0,
       content_block_delta 0
         (''['' @ [CHR 0x5C] @ ''[1'' @ [CHR 0x5C] @ ''] T](http://u)'' @ [CHR 0x0A, CHR 0x0A]),
       content_block_delta 0
         (''See ['' @ [CHR 0x5C] @ ''[1'' @ [CHR 0x5C] @ '']](http://u).''),
       content_block_delta 0 ''ab'', content_block_delta 0 ''cd'',
       content_block_stop 0, message_delta ''end_turn'', message_stop]"
    using claude_stream_text_fragments [OF 1 2 3 4] unfolding 5 l by (simp only: append.simps)
  with 4 [unfolded l] show ?thesis
    by (simp only: prod_eq_iff fst_conv snd_conv simp_thms)
qed


end
